theory Spec2Isabelle
  imports Main "HOL-Library.AList"
begin

section \<open>Python strings\<close>

text \<open>
  A Python \<open>str\<close> is a sequence of Unicode code points. A code point is modelled as a
  natural number and a string as a list of them, so that \<open>len\<close>, slicing and the
  character classes of \<open>str.strip\<close>, \<open>str.splitlines\<close> and of the regular expressions
  count what Python counts. \<open>py\<close> turns an Isabelle string literal into such a string.
\<close>

type_synonym pystr = "nat list"

definition py :: "string \<Rightarrow> pystr" where
  "py cs = map of_char cs"

abbreviation DQUOTE :: nat where "DQUOTE \<equiv> 34"
abbreviation COMMA :: nat where "COMMA \<equiv> 44"
abbreviation COLON :: nat where "COLON \<equiv> 58"
abbreviation LBRACKET :: nat where "LBRACKET \<equiv> 91"
abbreviation BACKSLASH :: nat where "BACKSLASH \<equiv> 92"
abbreviation RBRACKET :: nat where "RBRACKET \<equiv> 93"
abbreviation BACKTICK :: nat where "BACKTICK \<equiv> 96"
abbreviation LBRACE :: nat where "LBRACE \<equiv> 123"
abbreviation RBRACE :: nat where "RBRACE \<equiv> 125"
abbreviation NEWLINE :: nat where "NEWLINE \<equiv> 10"
abbreviation SPACE :: nat where "SPACE \<equiv> 32"

text \<open>
  \<open>str.isspace\<close> for one character; the same set is what \<open>str.strip()\<close> removes and
  what \<open>\s\<close> matches in a \<open>str\<close> pattern of \<open>re\<close>.
\<close>

definition isspace :: "nat \<Rightarrow> bool" where
  "isspace c \<longleftrightarrow>
     (9 \<le> c \<and> c \<le> 13) \<or> (28 \<le> c \<and> c \<le> 32) \<or> c = 133 \<or> c = 160 \<or> c = 5760 \<or>
     (8192 \<le> c \<and> c \<le> 8202) \<or> c = 8232 \<or> c = 8233 \<or> c = 8239 \<or> c = 8287 \<or> c = 12288"

definition lstrip :: "pystr \<Rightarrow> pystr" where
  "lstrip s = dropWhile isspace s"

definition rstrip :: "pystr \<Rightarrow> pystr" where
  "rstrip s = rev (dropWhile isspace (rev s))"

definition strip :: "pystr \<Rightarrow> pystr" where
  "strip s = lstrip (rstrip s)"

text \<open>\<open>s.strip(chars)\<close>: removes leading and trailing characters that occur in \<open>chars\<close>.\<close>

definition strip_chars :: "pystr \<Rightarrow> pystr \<Rightarrow> pystr" where
  "strip_chars chars s =
     dropWhile (\<lambda>c. c \<in> set chars) (rev (dropWhile (\<lambda>c. c \<in> set chars) (rev s)))"

definition startswith :: "pystr \<Rightarrow> pystr \<Rightarrow> bool" where
  "startswith s p \<longleftrightarrow> take (length p) s = p"

definition endswith :: "pystr \<Rightarrow> pystr \<Rightarrow> bool" where
  "endswith s p \<longleftrightarrow> length p \<le> length s \<and> drop (length s - length p) s = p"

text \<open>\<open>sub in s\<close> for strings.\<close>

fun contains :: "pystr \<Rightarrow> pystr \<Rightarrow> bool" where
  "contains [] sub = (sub = [])"
| "contains (c # cs) sub = (startswith (c # cs) sub \<or> contains cs sub)"

text \<open>\<open>s.find(ch)\<close> for a single character: \<open>None\<close> stands for \<open>-1\<close>.\<close>

fun find_char :: "pystr \<Rightarrow> nat \<Rightarrow> nat option" where
  "find_char [] ch = None"
| "find_char (c # cs) ch =
     (if c = ch then Some 0 else map_option Suc (find_char cs ch))"

text \<open>
  \<open>str.splitlines()\<close>: the line boundaries are \<open>\n\<close>, \<open>\r\<close>, \<open>\r\n\<close>, \<open>\v\<close>, \<open>\f\<close>,
  \<open>\x1c\<close>, \<open>\x1d\<close>, \<open>\x1e\<close>, \<open>\x85\<close>, U+2028 and U+2029; the boundaries are not
  kept, and a final boundary opens no empty last line.
\<close>

definition linebreak :: "nat \<Rightarrow> bool" where
  "linebreak c \<longleftrightarrow>
     (10 \<le> c \<and> c \<le> 13) \<or> (28 \<le> c \<and> c \<le> 30) \<or> c = 133 \<or> c = 8232 \<or> c = 8233"

fun splitlines :: "pystr \<Rightarrow> pystr list" where
  "splitlines [] = []"
| "splitlines (c # cs) =
     (if c = 13 then
        (case cs of
           [] \<Rightarrow> [] # splitlines cs
         | d # ds \<Rightarrow> if d = 10 then [] # splitlines ds else [] # splitlines cs)
      else if linebreak c then [] # splitlines cs
      else (case splitlines cs of
              [] \<Rightarrow> [[c]]
            | l # ls \<Rightarrow> (c # l) # ls))"

section \<open>The regular expressions of \<open>fix_json\<close>\<close>

text \<open>
  Each \<open>re.sub\<close> and \<open>re.search\<close> of the source is one function here. None of the
  patterns is compiled with \<open>re.MULTILINE\<close>: \<open>^\<close> matches at the start of the string
  only, \<open>$\<close> at its end and before a newline that is its last character.
\<close>

abbreviation FENCE :: pystr where "FENCE \<equiv> [BACKTICK, BACKTICK, BACKTICK]"

text \<open>
  \<open>json\<close> under \<open>re.IGNORECASE\<close>: each letter in either case; for a \<open>str\<close> pattern
  \<open>s\<close> also matches U+017F (the long s), which folds to it.
\<close>

definition json_tag_ci :: "pystr \<Rightarrow> bool" where
  "json_tag_ci t \<longleftrightarrow>
     (case t of
        [a, b, c, d] \<Rightarrow>
          (a = 106 \<or> a = 74) \<and> (b = 115 \<or> b = 83 \<or> b = 383) \<and>
          (c = 111 \<or> c = 79) \<and> (d = 110 \<or> d = 78)
      | _ \<Rightarrow> False)"

text \<open>\<open>re.sub(r"^```(?:json)?\s*", "", s, flags=re.IGNORECASE)\<close>\<close>

definition sub_leading_fence :: "pystr \<Rightarrow> pystr" where
  "sub_leading_fence s =
     (if startswith s FENCE then
        (let r = drop 3 s;
             r = (if json_tag_ci (take 4 r) then drop 4 r else r)
         in dropWhile isspace r)
      else s)"

text \<open>
  \<open>re.sub(r"\s*```$", "", s)\<close>: the fence must end the string (or stand before its final
  newline); the leftmost match starts at the beginning of the whitespace run before it.
\<close>

definition sub_trailing_ws_fence :: "pystr \<Rightarrow> pystr" where
  "sub_trailing_ws_fence s =
     (if endswith s FENCE then rstrip (take (length s - 3) s)
      else if endswith s (FENCE @ [NEWLINE]) then rstrip (take (length s - 4) s) @ [NEWLINE]
      else s)"

text \<open>\<open>re.sub(r"```$", "", candidate)\<close>\<close>

definition sub_trailing_fence :: "pystr \<Rightarrow> pystr" where
  "sub_trailing_fence s =
     (if endswith s FENCE then take (length s - 3) s
      else if endswith s (FENCE @ [NEWLINE]) then take (length s - 4) s @ [NEWLINE]
      else s)"

text \<open>
  \<open>re.sub(r",\s*(\]|\})", r"\1", candidate)\<close>: every comma that is followed, after
  optional whitespace, by a closing bracket or brace is removed together with that
  whitespace; the scan goes on behind the bracket.
\<close>

function sub_trailing_commas :: "pystr \<Rightarrow> pystr" where
  "sub_trailing_commas [] = []"
| "sub_trailing_commas (c # cs) =
     (if c = COMMA then
        (case dropWhile isspace cs of
           [] \<Rightarrow> c # sub_trailing_commas cs
         | d # ds \<Rightarrow>
             if d = RBRACKET \<or> d = RBRACE then d # sub_trailing_commas ds
             else c # sub_trailing_commas cs)
      else c # sub_trailing_commas cs)"
  by pat_completeness auto
termination
proof (relation "measure length")
  fix c :: nat and cs d ds
  assume "dropWhile isspace cs = d # ds"
  then have "length (d # ds) \<le> length cs"
    by (metis length_dropWhile_le)
  then show "(ds, c # cs) \<in> measure length" by simp
qed auto

text \<open>
  \<open>re.search(r"(\{[\s\S]*\})", s)\<close>: the greedy match runs from the first \<open>{\<close> to the
  last \<open>}\<close> of the string, when that one comes later.
\<close>

definition rfind_char :: "pystr \<Rightarrow> nat \<Rightarrow> nat option" where
  "rfind_char s ch =
     (case find_char (rev s) ch of None \<Rightarrow> None | Some k \<Rightarrow> Some (length s - 1 - k))"

definition search_outer_braces :: "pystr \<Rightarrow> pystr option" where
  "search_outer_braces s =
     (case find_char s LBRACE of
        None \<Rightarrow> None
      | Some i \<Rightarrow>
          (case rfind_char s RBRACE of
             None \<Rightarrow> None
           | Some j \<Rightarrow> if i < j then Some (take (j + 1 - i) (drop i s)) else None))"

section \<open>JSON values, \<open>json.dumps\<close> and \<open>json.loads\<close>\<close>

text \<open>
  The values \<open>json.loads\<close> builds. A \<open>dict\<close> is the list of its items in insertion
  order, the order \<open>json.dumps\<close> writes them in. A \<open>float\<close> is represented by the text
  \<open>json.dumps\<close> prints for it (\<open>float.__repr__\<close>, or \<open>NaN\<close>, \<open>Infinity\<close>,
  \<open>-Infinity\<close>): binary floating point is not modelled, and the function that takes a
  float literal to that text is a parameter \<open>fr\<close> of the decoder.
\<close>

datatype json =
    JNull
  | JBool bool
  | JInt int
  | JFloat pystr
  | JStr pystr
  | JArr "json list"
  | JObj "(pystr \<times> json) list"

type_synonym frepr = "pystr \<Rightarrow> pystr"

subsection \<open>Encoding: \<open>json.dumps(v, ensure_ascii=False, indent=2)\<close>\<close>

definition hexdigit :: "nat \<Rightarrow> nat" where
  "hexdigit d = (if d < 10 then 48 + d else 87 + d)"

text \<open>
  \<open>py_encode_basestring\<close>: the quote, the backslash and the control characters below
  U+0020 are escaped; every other code point is written as it is.
\<close>

definition esc_char :: "nat \<Rightarrow> pystr" where
  "esc_char c =
     (if c = DQUOTE then [BACKSLASH, DQUOTE]
      else if c = BACKSLASH then [BACKSLASH, BACKSLASH]
      else if c = 10 then [BACKSLASH, 110]
      else if c = 13 then [BACKSLASH, 114]
      else if c = 9 then [BACKSLASH, 116]
      else if c = 8 then [BACKSLASH, 98]
      else if c = 12 then [BACKSLASH, 102]
      else if c < 32 then [BACKSLASH, 117, 48, 48, hexdigit (c div 16), hexdigit (c mod 16)]
      else [c])"

definition encode_string :: "pystr \<Rightarrow> pystr" where
  "encode_string s = DQUOTE # concat (map esc_char s) @ [DQUOTE]"

fun digits :: "nat \<Rightarrow> pystr" where
  "digits n = (if n < 10 then [48 + n] else digits (n div 10) @ [48 + n mod 10])"

declare digits.simps [simp del]

definition int_repr :: "int \<Rightarrow> pystr" where
  "int_repr i = (if i < 0 then 45 # digits (nat (- i)) else digits (nat i))"

fun join :: "pystr \<Rightarrow> pystr list \<Rightarrow> pystr" where
  "join sep [] = []"
| "join sep [x] = x"
| "join sep (x # y # xs) = x @ sep @ join sep (y # xs)"

text \<open>The newline and indentation written before an item at nesting level \<open>l\<close>.\<close>

definition nl :: "nat \<Rightarrow> pystr" where
  "nl l = NEWLINE # replicate (2 * l) SPACE"

fun enc :: "nat \<Rightarrow> json \<Rightarrow> pystr" where
  "enc l JNull = py ''null''"
| "enc l (JBool b) = (if b then py ''true'' else py ''false'')"
| "enc l (JInt i) = int_repr i"
| "enc l (JFloat r) = r"
| "enc l (JStr s) = encode_string s"
| "enc l (JArr vs) =
     (if vs = [] then py ''[]''
      else [LBRACKET] @ nl (l + 1) @ join (COMMA # nl (l + 1)) (map (enc (l + 1)) vs)
           @ nl l @ [RBRACKET])"
| "enc l (JObj kvs) =
     (if kvs = [] then py ''{}''
      else [LBRACE] @ nl (l + 1)
           @ join (COMMA # nl (l + 1))
               (map (\<lambda>kv. encode_string (fst kv) @ [COLON, SPACE] @ enc (l + 1) (snd kv)) kvs)
           @ nl l @ [RBRACE])"

definition json_dumps :: "json \<Rightarrow> pystr" where
  "json_dumps v = enc 0 v"

subsection \<open>Decoding: \<open>json.loads\<close>\<close>

text \<open>The whitespace of the JSON grammar: space, tab, newline, carriage return.\<close>

definition json_ws :: "nat \<Rightarrow> bool" where
  "json_ws c \<longleftrightarrow> c = 32 \<or> c = 9 \<or> c = 10 \<or> c = 13"

definition skip_ws :: "pystr \<Rightarrow> pystr" where
  "skip_ws s = dropWhile json_ws s"

definition hexval :: "nat \<Rightarrow> nat option" where
  "hexval c =
     (if 48 \<le> c \<and> c \<le> 57 then Some (c - 48)
      else if 97 \<le> c \<and> c \<le> 102 then Some (c - 87)
      else if 65 \<le> c \<and> c \<le> 70 then Some (c - 55)
      else None)"

definition hex4 :: "pystr \<Rightarrow> nat option" where
  "hex4 t =
     (case t of
        [a, b, c, d] \<Rightarrow>
          (case (hexval a, hexval b, hexval c, hexval d) of
             (Some x, Some y, Some z, Some w) \<Rightarrow> Some (((x * 16 + y) * 16 + z) * 16 + w)
           | _ \<Rightarrow> None)
      | _ \<Rightarrow> None)"

definition unescape :: "nat \<Rightarrow> nat option" where
  "unescape e =
     (if e = DQUOTE then Some DQUOTE
      else if e = BACKSLASH then Some BACKSLASH
      else if e = 47 then Some 47
      else if e = 98 then Some 8
      else if e = 102 then Some 12
      else if e = 110 then Some 10
      else if e = 114 then Some 13
      else if e = 116 then Some 9
      else None)"

definition cons_char :: "nat \<Rightarrow> (pystr \<times> pystr) option \<Rightarrow> (pystr \<times> pystr) option" where
  "cons_char x r = map_option (\<lambda>(str, rest). (x # str, rest)) r"

text \<open>
  \<open>scanstring\<close> (strict), called behind the opening quote: the decoded string and the
  text behind the closing quote, or \<open>None\<close> where the decoder raises. A high surrogate
  escape followed by a low surrogate escape is one code point.
\<close>

function scanstring :: "pystr \<Rightarrow> (pystr \<times> pystr) option" where
  "scanstring [] = None"
| "scanstring (c # cs) =
     (if c = DQUOTE then Some ([], cs)
      else if c = BACKSLASH then
        (case cs of
           [] \<Rightarrow> None
         | e # r \<Rightarrow>
             if e = 117 then
               (case hex4 (take 4 r) of
                  None \<Rightarrow> None
                | Some uni \<Rightarrow>
                    if 55296 \<le> uni \<and> uni \<le> 56319 \<and> startswith (drop 4 r) [BACKSLASH, 117] then
                      (case hex4 (take 4 (drop 6 r)) of
                         None \<Rightarrow> None
                       | Some uni2 \<Rightarrow>
                           if 56320 \<le> uni2 \<and> uni2 \<le> 57343
                           then cons_char (65536 + ((uni - 55296) * 1024 + (uni2 - 56320)))
                                  (scanstring (drop 10 r))
                           else cons_char uni (scanstring (drop 4 r)))
                    else cons_char uni (scanstring (drop 4 r)))
             else (case unescape e of
                     None \<Rightarrow> None
                   | Some x \<Rightarrow> cons_char x (scanstring r)))
      else if c < 32 then None
      else cons_char c (scanstring cs))"
  by pat_completeness auto
termination
  by (relation "measure length") auto

declare scanstring.simps(2) [simp del]

definition isdigit :: "nat \<Rightarrow> bool" where
  "isdigit c \<longleftrightarrow> 48 \<le> c \<and> c \<le> 57"

definition nat_of_digits :: "pystr \<Rightarrow> nat" where
  "nat_of_digits ds = foldl (\<lambda>a d. 10 * a + (d - 48)) 0 ds"

text \<open>
  The three groups of \<open>NUMBER_RE\<close>,
  \<open>(-?(?:0|[1-9][0-9]*))(\.[0-9]+)?([eE][-+]?[0-9]+)?\<close>, each with the text left behind it.
\<close>

definition scan_integer :: "pystr \<Rightarrow> (pystr \<times> pystr) option" where
  "scan_integer s =
     (let sign = (if startswith s [45] then [45] else []);
          s1 = drop (length sign) s
      in case s1 of
           [] \<Rightarrow> None
         | c # cs \<Rightarrow>
             if c = 48 then Some (sign @ [48], cs)
             else if 49 \<le> c \<and> c \<le> 57
               then Some (sign @ c # takeWhile isdigit cs, dropWhile isdigit cs)
             else None)"

definition scan_frac :: "pystr \<Rightarrow> pystr \<times> pystr" where
  "scan_frac s =
     (case s of
        c # d # r \<Rightarrow>
          if c = 46 \<and> isdigit d
          then (c # takeWhile isdigit (d # r), dropWhile isdigit (d # r))
          else ([], s)
      | _ \<Rightarrow> ([], s))"

definition scan_exp :: "pystr \<Rightarrow> pystr \<times> pystr" where
  "scan_exp s =
     (case s of
        [] \<Rightarrow> ([], s)
      | c # r \<Rightarrow>
          if c = 101 \<or> c = 69 then
            (let sign = (if startswith r [43] \<or> startswith r [45] then take 1 r else []);
                 r1 = drop (length sign) r
             in if r1 \<noteq> [] \<and> isdigit (hd r1)
                then (c # sign @ takeWhile isdigit r1, dropWhile isdigit r1)
                else ([], s))
          else ([], s))"

definition int_of_literal :: "pystr \<Rightarrow> int" where
  "int_of_literal t =
     (if startswith t [45] then - int (nat_of_digits (drop 1 t)) else int (nat_of_digits t))"

text \<open>
  The number branch of the scanner: with a fraction or an exponent the literal goes to
  \<open>float\<close>, otherwise to \<open>int\<close>.
\<close>

definition match_number :: "frepr \<Rightarrow> pystr \<Rightarrow> (json \<times> pystr) option" where
  "match_number fr s =
     (case scan_integer s of
        None \<Rightarrow> None
      | Some (integer, r0) \<Rightarrow>
          (let (frac, r1) = scan_frac r0;
               (exp, r2) = scan_exp r1
           in if frac \<noteq> [] \<or> exp \<noteq> []
              then Some (JFloat (fr (integer @ frac @ exp)), r2)
              else Some (JInt (int_of_literal integer), r2)))"

text \<open>
  \<open>dict(pairs)\<close>: a key that comes again keeps its first place and takes the later value.
\<close>

definition dict_of_pairs :: "(pystr \<times> json) list \<Rightarrow> (pystr \<times> json) list" where
  "dict_of_pairs pairs = foldl (\<lambda>d kv. AList.update (fst kv) (snd kv) d) [] pairs"

text \<open>
  The decoder recurses on nested values and loops over the items of an array or an
  object. Both are recursion on a counter here, which runs out (\<open>OutOfFuel\<close>) only
  when it is started below the length of the text; \<open>DecodeError\<close> is where the decoder
  raises \<open>JSONDecodeError\<close>.
\<close>

datatype 'a res = OutOfFuel | DecodeError | Ok 'a

definition rbind :: "'a res \<Rightarrow> ('a \<Rightarrow> 'b res) \<Rightarrow> 'b res" where
  "rbind r f = (case r of OutOfFuel \<Rightarrow> OutOfFuel | DecodeError \<Rightarrow> DecodeError | Ok x \<Rightarrow> f x)"

fun parse_value :: "frepr \<Rightarrow> nat \<Rightarrow> pystr \<Rightarrow> (json \<times> pystr) res"
  and parse_elems :: "frepr \<Rightarrow> nat \<Rightarrow> pystr \<Rightarrow> (json list \<times> pystr) res"
  and parse_members :: "frepr \<Rightarrow> nat \<Rightarrow> pystr \<Rightarrow> ((pystr \<times> json) list \<times> pystr) res"
where
  "parse_value fr 0 s = OutOfFuel"
| "parse_value fr (Suc n) s =
     (case s of
        [] \<Rightarrow> DecodeError
      | c # cs \<Rightarrow>
          if c = DQUOTE then
            (case scanstring cs of
               None \<Rightarrow> DecodeError
             | Some (str, r) \<Rightarrow> Ok (JStr str, r))
          else if c = LBRACE then
            (case skip_ws cs of
               [] \<Rightarrow> DecodeError
             | d # ds \<Rightarrow>
                 if d = RBRACE then Ok (JObj [], ds)
                 else if d = DQUOTE then
                   rbind (parse_members fr n (d # ds))
                     (\<lambda>(pairs, r). Ok (JObj (dict_of_pairs pairs), r))
                 else DecodeError)
          else if c = LBRACKET then
            (case skip_ws cs of
               [] \<Rightarrow> DecodeError
             | d # ds \<Rightarrow>
                 if d = RBRACKET then Ok (JArr [], ds)
                 else rbind (parse_elems fr n (d # ds)) (\<lambda>(vs, r). Ok (JArr vs, r)))
          else if startswith s (py ''null'') then Ok (JNull, drop 4 s)
          else if startswith s (py ''true'') then Ok (JBool True, drop 4 s)
          else if startswith s (py ''false'') then Ok (JBool False, drop 5 s)
          else
            (case match_number fr s of
               Some (v, r) \<Rightarrow> Ok (v, r)
             | None \<Rightarrow>
                 if startswith s (py ''NaN'') then Ok (JFloat (py ''NaN''), drop 3 s)
                 else if startswith s (py ''Infinity'')
                   then Ok (JFloat (py ''Infinity''), drop 8 s)
                 else if startswith s (py ''-Infinity'')
                   then Ok (JFloat (py ''-Infinity''), drop 9 s)
                 else DecodeError))"
| "parse_elems fr 0 s = OutOfFuel"
| "parse_elems fr (Suc n) s =
     rbind (parse_value fr n s)
       (\<lambda>(v, r).
          case skip_ws r of
            [] \<Rightarrow> DecodeError
          | c # r1 \<Rightarrow>
              if c = RBRACKET then Ok ([v], r1)
              else if c = COMMA then
                rbind (parse_elems fr n (skip_ws r1)) (\<lambda>(vs, r2). Ok (v # vs, r2))
              else DecodeError)"
| "parse_members fr 0 s = OutOfFuel"
| "parse_members fr (Suc n) s =
     (case s of
        [] \<Rightarrow> DecodeError
      | q # s1 \<Rightarrow>
          if q \<noteq> DQUOTE then DecodeError
          else
            (case scanstring s1 of
               None \<Rightarrow> DecodeError
             | Some (key, r) \<Rightarrow>
                 (case skip_ws r of
                    [] \<Rightarrow> DecodeError
                  | c # r1 \<Rightarrow>
                      if c \<noteq> COLON then DecodeError
                      else
                        rbind (parse_value fr n (skip_ws r1))
                          (\<lambda>(v, r2).
                             case skip_ws r2 of
                               [] \<Rightarrow> DecodeError
                             | d # r3 \<Rightarrow>
                                 if d = RBRACE then Ok ([(key, v)], r3)
                                 else if d = COMMA then
                                   rbind (parse_members fr n (skip_ws r3))
                                     (\<lambda>(ps, r4). Ok ((key, v) # ps, r4))
                                 else DecodeError))))"

text \<open>
  The exceptions of the model. \<open>json.loads\<close> refuses a leading byte order mark, decodes
  one value between optional whitespace and refuses anything behind it.
\<close>

datatype exn = JSONDecodeError | ValueError string | OtherError nat

definition json_loads :: "frepr \<Rightarrow> pystr \<Rightarrow> exn + json" where
  "json_loads fr s =
     (if startswith s [65279] then Inl JSONDecodeError
      else
        (case parse_value fr (Suc (length s)) (skip_ws s) of
           Ok (v, r) \<Rightarrow> if skip_ws r = [] then Inr v else Inl JSONDecodeError
         | _ \<Rightarrow> Inl JSONDecodeError))"

section \<open>\<open>FitnessCoach.fix_json\<close>\<close>

text \<open>
  \<open>try: ... except Exception: ...\<close>: every exception of the model derives from
  \<open>Exception\<close>, so the handler takes them all.
\<close>

definition try_except :: "exn + 'a \<Rightarrow> (exn \<Rightarrow> exn + 'a) \<Rightarrow> exn + 'a" where
  "try_except body handler = (case body of Inl e \<Rightarrow> handler e | Inr x \<Rightarrow> Inr x)"

text \<open>
  The block that \<open>fix_json\<close> repeats for each candidate text:
  \<^verbatim>\<open>
  try:
      parsed = json.loads(candidate)
      return json.dumps(parsed, ensure_ascii=False, indent=2)
  except Exception:
      pass
  \<close>
  \<open>Some\<close> is the value returned, \<open>None\<close> is falling through the handler.
\<close>

definition parse_and_dump :: "frepr \<Rightarrow> pystr \<Rightarrow> pystr option" where
  "parse_and_dump fr candidate =
     (case try_except (map_sum id (\<lambda>parsed. Some (json_dumps parsed)) (json_loads fr candidate))
             (\<lambda>e. Inr None) of
        Inr r \<Rightarrow> r
      | Inl e \<Rightarrow> None)"

text \<open>
  Lines 38 to 41: the text that the strategies work on.
\<close>

definition strip_fences :: "pystr \<Rightarrow> pystr" where
  "strip_fences json_str =
     (let s = strip json_str;
          s = sub_leading_fence s;
          s = sub_trailing_ws_fence s
      in strip s)"

text \<open>
  Lines 51 to 61: the loop over \<open>range(start, len(s))\<close>, from the position \<open>i\<close> with
  the depth so far; the result is \<open>end_index\<close>.
\<close>

fun scan_braces :: "pystr \<Rightarrow> nat \<Rightarrow> int \<Rightarrow> nat option" where
  "scan_braces [] i depth = None"
| "scan_braces (ch # rest) i depth =
     (if ch = LBRACE then scan_braces rest (i + 1) (depth + 1)
      else if ch = RBRACE then
        (if depth - 1 = 0 then Some i else scan_braces rest (i + 1) (depth - 1))
      else scan_braces rest (i + 1) depth)"

text \<open>
  \<open>close_open_quotes\<close>: \<open>seen\<close> is the text already passed, last character first, so
  that the backslashes immediately before a quote are its leading run.
\<close>

fun count_unescaped_quotes :: "pystr \<Rightarrow> pystr \<Rightarrow> nat" where
  "count_unescaped_quotes seen [] = 0"
| "count_unescaped_quotes seen (c # rest) =
     (if c = DQUOTE \<and> length (takeWhile (\<lambda>b. b = BACKSLASH) seen) mod 2 = 0 then 1 else 0)
     + count_unescaped_quotes (c # seen) rest"

definition close_open_quotes :: "pystr \<Rightarrow> pystr" where
  "close_open_quotes text =
     (if count_unescaped_quotes [] text mod 2 = 1 then text @ [DQUOTE] else text)"

text \<open>Lines 71 to 98: the repaired candidate of the third strategy.\<close>

definition repair_candidate :: "pystr \<Rightarrow> nat \<Rightarrow> pystr" where
  "repair_candidate s start =
     (let candidate = drop start s;
          candidate = rstrip (sub_trailing_fence candidate);
          candidate = close_open_quotes candidate;
          open_braces = count_list candidate LBRACE;
          close_braces = count_list candidate RBRACE;
          candidate = (if close_braces < open_braces
                       then candidate @ replicate (open_braces - close_braces) RBRACE
                       else candidate)
      in sub_trailing_commas candidate)"

text \<open>Lines 49 to 104: the brace-balanced substring, then the heuristic repair.\<close>

definition brace_strategies :: "frepr \<Rightarrow> pystr \<Rightarrow> pystr option" where
  "brace_strategies fr s =
     (case find_char s LBRACE of
        None \<Rightarrow> None
      | Some start \<Rightarrow>
          (case (case scan_braces (drop start s) start 0 of
                   None \<Rightarrow> None
                 | Some end_index \<Rightarrow>
                     parse_and_dump fr (take (end_index + 1 - start) (drop start s))) of
             Some out \<Rightarrow> Some out
           | None \<Rightarrow> parse_and_dump fr (repair_candidate s start)))"

text \<open>Lines 107 to 110: the text whose lines the line-salvage fallback reads.\<close>

definition salvage_inner :: "pystr \<Rightarrow> pystr" where
  "salvage_inner s =
     (let inner = strip (sub_leading_fence s);
          inner = strip (sub_trailing_ws_fence inner)
      in if startswith inner [LBRACE] then drop 1 inner else inner)"

text \<open>
  Line 111: the lines that are not blank, each trimmed and then freed of the quotes and
  commas around it.
\<close>

definition stripped_lines :: "pystr \<Rightarrow> pystr list" where
  "stripped_lines inner =
     map (\<lambda>ln. strip_chars [DQUOTE, COMMA] (strip ln))
       (filter (\<lambda>ln. strip ln \<noteq> []) (splitlines inner))"

text \<open>Line 112.\<close>

definition salvage_steps :: "pystr \<Rightarrow> pystr list" where
  "salvage_steps s = filter (\<lambda>ln. length ln > 10) (stripped_lines (salvage_inner s))"

definition fallback :: "pystr list \<Rightarrow> json" where
  "fallback steps =
     JObj [(py ''steps'', JArr (map JStr steps)),
           (py ''assumptions'', JArr []),
           (py ''success_criteria'', JArr [])]"

definition line_salvage :: "pystr \<Rightarrow> pystr option" where
  "line_salvage s =
     (let steps = salvage_steps s
      in if steps \<noteq> [] then Some (json_dumps (fallback steps)) else None)"

text \<open>Lines 123 to 129.\<close>

definition outer_brace_strategy :: "frepr \<Rightarrow> pystr \<Rightarrow> pystr option" where
  "outer_brace_strategy fr s =
     (case search_outer_braces s of
        None \<Rightarrow> None
      | Some g \<Rightarrow> parse_and_dump fr g)"

text \<open>Lines 131 to 137.\<close>

definition steps_only_strategy :: "frepr \<Rightarrow> pystr \<Rightarrow> pystr option" where
  "steps_only_strategy fr s =
     (if contains s (py ''\"steps\"'') \<and> \<not> contains s [LBRACE]
      then parse_and_dump fr ([LBRACE] @ s @ [RBRACE])
      else None)"

definition first_of :: "'a option \<Rightarrow> 'a option \<Rightarrow> 'a option" where
  "first_of a b = (case a of Some x \<Rightarrow> Some x | None \<Rightarrow> b)"

text \<open>
  The body of the outer \<open>try\<close>: the strategies in the order of the source, the first one
  that returns wins; \<open>None\<close> is line 139.
\<close>

definition fix_json_body :: "frepr \<Rightarrow> pystr \<Rightarrow> exn + pystr option" where
  "fix_json_body fr json_str =
     (let s = strip_fences json_str
      in Inr (first_of (parse_and_dump fr s)
             (first_of (brace_strategies fr s)
             (first_of (line_salvage s)
             (first_of (outer_brace_strategy fr s)
                       (steps_only_strategy fr s))))))"

definition fix_json :: "frepr \<Rightarrow> pystr \<Rightarrow> exn + pystr option" where
  "fix_json fr json_str = try_except (fix_json_body fr json_str) (\<lambda>e. Inr None)"

section \<open>\<open>FitnessCoach._extract_text_from_response\<close>\<close>

text \<open>
  The response of the completion service is read through \<open>getattr(x, name, None)\<close>
  only. An attribute is missing (or \<open>None\<close>), or reading it raises an exception other
  than \<open>AttributeError\<close>, or it has a value. The shapes are those the function probes:
  a direct text, a result with parts, candidates with a content with parts or a text.
\<close>

datatype 'a attr = Absent | Raises exn | Has 'a

datatype part = Part (part_text: "pystr attr")

datatype content = Content (content_parts: "part list attr")

datatype candidate = Candidate (cand_content: "content attr") (cand_text: "pystr attr")

datatype result = Result (result_parts: "part list attr")

datatype response =
  Response (resp_text: "pystr attr") (resp_result: "result attr")
    (resp_candidates: "candidate list attr")

definition bind_exn :: "exn + 'a \<Rightarrow> ('a \<Rightarrow> exn + 'b) \<Rightarrow> exn + 'b" where
  "bind_exn m f = (case m of Inl e \<Rightarrow> Inl e | Inr x \<Rightarrow> f x)"

text \<open>\<open>getattr(x, name, None)\<close>: the default stands in for a missing attribute only.\<close>

definition getattr :: "'a attr \<Rightarrow> exn + 'a option" where
  "getattr a = (case a of Absent \<Rightarrow> Inr None | Raises e \<Rightarrow> Inl e | Has v \<Rightarrow> Inr (Some v))"

text \<open>Truth value of an optional string or list: \<open>None\<close> and the empty one are false.\<close>

definition truthy :: "'a list option \<Rightarrow> bool" where
  "truthy x \<longleftrightarrow> (case x of None \<Rightarrow> False | Some l \<Rightarrow> l \<noteq> [])"

text \<open>
  \<^verbatim>\<open>
  for p in parts:
      if getattr(p, 'text', None):
          parts.append(p.text)
  \<close>
  The texts appended, in order, or the first exception raised.
\<close>

fun part_texts :: "part list \<Rightarrow> exn + pystr list" where
  "part_texts [] = Inr []"
| "part_texts (p # ps) =
     bind_exn (getattr (part_text p))
       (\<lambda>t. bind_exn (part_texts ps)
          (\<lambda>rest. Inr (if truthy t then the t # rest else rest)))"

text \<open>Lines 158 to 164: what one candidate appends.\<close>

definition candidate_texts :: "candidate \<Rightarrow> exn + pystr list" where
  "candidate_texts cand =
     bind_exn (getattr (cand_content cand))
       (\<lambda>c. bind_exn (case c of None \<Rightarrow> Inr None | Some c' \<Rightarrow> getattr (content_parts c'))
          (\<lambda>ps. if truthy ps then part_texts (the ps)
                 else bind_exn (getattr (cand_text cand))
                        (\<lambda>t. Inr (if truthy t then [the t] else []))))"

fun candidates_texts :: "candidate list \<Rightarrow> exn + pystr list" where
  "candidates_texts [] = Inr []"
| "candidates_texts (cand # cands) =
     bind_exn (candidate_texts cand)
       (\<lambda>ts. bind_exn (candidates_texts cands) (\<lambda>rest. Inr (ts @ rest)))"

text \<open>Lines 151 to 164: the list \<open>parts\<close> when the loops are over.\<close>

definition collect_parts :: "response \<Rightarrow> exn + pystr list" where
  "collect_parts response =
     bind_exn (getattr (resp_result response))
       (\<lambda>r. bind_exn (case r of None \<Rightarrow> Inr None | Some r' \<Rightarrow> getattr (result_parts r'))
          (\<lambda>ps. if truthy ps then part_texts (the ps)
                 else bind_exn (getattr (resp_candidates response))
                        (\<lambda>cs. if truthy cs then candidates_texts (the cs) else Inr [])))"

text \<open>
  Lines 145 to 149, the inner \<open>try\<close>: \<open>Some t\<close> when it returns \<open>response.text\<close>,
  \<open>None\<close> when the text is false or reading it raised.
\<close>

definition direct_text :: "response \<Rightarrow> pystr option" where
  "direct_text response =
     (case try_except
             (bind_exn (getattr (resp_text response))
                (\<lambda>t. Inr (if truthy t then t else None)))
             (\<lambda>e. Inr None) of
        Inr r \<Rightarrow> r
      | Inl e \<Rightarrow> None)"

definition extract_text_from_response :: "response \<Rightarrow> exn + pystr option" where
  "extract_text_from_response response =
     try_except
       (case direct_text response of
          Some t \<Rightarrow> Inr (Some t)
        | None \<Rightarrow>
            bind_exn (collect_parts response)
              (\<lambda>parts. Inr (if parts \<noteq> [] then Some (join [NEWLINE] parts) else None)))
       (\<lambda>e. Inr None)"

section \<open>The pipeline: \<open>chain1_planning\<close>, \<open>chain2_execution\<close>, \<open>generate\<close>, \<open>main\<close>\<close>

text \<open>
  What a run does to the outside is a list of events, in order: a call of
  \<open>model.generate_content\<close> with its prompt, a call of \<open>json.loads\<close> or of \<open>fix_json\<close>
  by the planning stage with its text, an attempt to write the debug file with the text
  and whether it succeeded, the writing of the final guide. Console output is left out.
\<close>

datatype event =
    Generate pystr
  | Loads pystr
  | FixJson pystr
  | DumpWrite pystr bool
  | GuideWrite pystr

record state =
  events :: "event list"
  dump_file :: "pystr option"

text \<open>
  The collaborators of a run: the completion service (its answer may depend on the number
  of calls made before), whether the n-th attempt to open the debug file for writing
  succeeds, the environment variable with the key, the two prompt templates of
  \<open>config/prompts.py\<close> and the printing of floats.
\<close>

record env =
  generate_content :: "nat \<Rightarrow> pystr \<Rightarrow> exn + response"
  dump_writable :: "nat \<Rightarrow> bool"
  api_key :: "pystr option"
  PLANNING_PROMPT :: pystr
  EXECUTION_PROMPT :: pystr
  float_repr :: frepr

text \<open>The one attribute of a \<open>FitnessCoach\<close> that the stages read besides the model.\<close>

record coach =
  mock_response_text :: "pystr option"

text \<open>\<open>s.replace(old, new)\<close>, left to right without overlap.\<close>

function replace :: "pystr \<Rightarrow> pystr \<Rightarrow> pystr \<Rightarrow> pystr" where
  "replace [] old new = (if old = [] then new else [])"
| "replace (c # cs) old new =
     (if old = [] then new @ c # replace cs old new
      else if startswith (c # cs) old then new @ replace (drop (length old) (c # cs)) old new
      else c # replace cs old new)"
  by pat_completeness auto
termination
  by (relation "measure (\<lambda>(s, old, new). length s)") auto

definition is_generate :: "event \<Rightarrow> bool" where
  "is_generate ev = (case ev of Generate p \<Rightarrow> True | _ \<Rightarrow> False)"

definition is_dump_write :: "event \<Rightarrow> bool" where
  "is_dump_write ev = (case ev of DumpWrite t ok \<Rightarrow> True | _ \<Rightarrow> False)"

definition is_parse :: "event \<Rightarrow> bool" where
  "is_parse ev = (case ev of Loads t \<Rightarrow> True | FixJson t \<Rightarrow> True | _ \<Rightarrow> False)"

definition log_event :: "event \<Rightarrow> state \<Rightarrow> state" where
  "log_event ev st = st\<lparr>events := events st @ [ev]\<rparr>"

text \<open>\<open>response = self.model.generate_content(prompt)\<close>\<close>

definition call_model :: "env \<Rightarrow> pystr \<Rightarrow> state \<Rightarrow> (exn + response) \<times> state" where
  "call_model en prompt st =
     (generate_content en (length (filter is_generate (events st))) prompt,
      log_event (Generate prompt) st)"

text \<open>
  \<^verbatim>\<open>
  try:
      with open('last_raw_plan_response.txt', 'w', encoding='utf-8') as fh:
          fh.write(json_output or '')
  except Exception:
      pass
  \<close>
  An attempt that fails leaves the file as it was and raises nothing.
\<close>

definition or_empty :: "pystr option \<Rightarrow> pystr" where
  "or_empty x = (case x of None \<Rightarrow> [] | Some s \<Rightarrow> s)"

definition write_dump :: "env \<Rightarrow> pystr option \<Rightarrow> state \<Rightarrow> state" where
  "write_dump en json_output st =
     (let ok = dump_writable en (length (filter is_dump_write (events st)))
      in log_event (DumpWrite (or_empty json_output) ok)
           (if ok then st\<lparr>dump_file := Some (or_empty json_output)\<rparr> else st))"

text \<open>Lines 181 to 185 and 256 to 260: the text of a stage, from the mock or the model.\<close>

definition stage_output ::
    "env \<Rightarrow> coach \<Rightarrow> pystr \<Rightarrow> state \<Rightarrow> (exn + pystr option) \<times> state" where
  "stage_output en self prompt st =
     (if truthy (mock_response_text self) then (Inr (mock_response_text self), st)
      else
        (case call_model en prompt st of
           (Inl e, st1) \<Rightarrow> (Inl e, st1)
         | (Inr response, st1) \<Rightarrow> (extract_text_from_response response, st1)))"

definition EmptyModelOutput :: exn where
  "EmptyModelOutput = ValueError ''Model response had no accessible text parts''"

definition RepairParseFailed :: exn where
  "RepairParseFailed =
     ValueError ''JSON repair parse failed; saved raw response to last_raw_plan_response.txt''"

definition UnrecoverableStructuredOutput :: exn where
  "UnrecoverableStructuredOutput =
     ValueError ''JSON repair failed; saved raw response to last_raw_plan_response.txt''"

text \<open>
  Lines 196 to 225: the direct parse, and behind a \<open>JSONDecodeError\<close> the repair with
  its two failures, each behind its own write of the debug file.
\<close>

definition parse_plan :: "env \<Rightarrow> pystr \<Rightarrow> state \<Rightarrow> (exn + json) \<times> state" where
  "parse_plan en json_output st =
     (let st1 = log_event (Loads json_output) st
      in case json_loads (float_repr en) json_output of
           Inr plan \<Rightarrow> (Inr plan, st1)
         | Inl JSONDecodeError \<Rightarrow>
             (let st2 = log_event (FixJson json_output) st1
              in case fix_json (float_repr en) json_output of
                   Inl e \<Rightarrow> (Inl e, st2)
                 | Inr fixed_json \<Rightarrow>
                     if truthy fixed_json then
                       (let st3 = log_event (Loads (the fixed_json)) st2
                        in case json_loads (float_repr en) (the fixed_json) of
                             Inr plan \<Rightarrow> (Inr plan, st3)
                           | Inl e \<Rightarrow>
                               (Inl RepairParseFailed, write_dump en (Some json_output) st3))
                     else (Inl UnrecoverableStructuredOutput,
                           write_dump en (Some json_output) st2))
         | Inl e \<Rightarrow> (Inl e, st1))"

definition planning_prompt :: "env \<Rightarrow> pystr \<Rightarrow> pystr" where
  "planning_prompt en user_request =
     replace (PLANNING_PROMPT en) (py ''{user_request}'') user_request"

text \<open>
  \<open>chain1_planning\<close>. The handler of the outer \<open>try\<close> (lines 234 to 242) writes
  \<open>json_output or ''\<close> to the debug file and raises the exception again; \<open>json_output\<close>
  is still \<open>None\<close> when the text was never obtained.
\<close>

definition chain1_planning ::
    "env \<Rightarrow> coach \<Rightarrow> pystr \<Rightarrow> state \<Rightarrow> (exn + json) \<times> state" where
  "chain1_planning en self user_request st =
     (case stage_output en self (planning_prompt en user_request) st of
        (Inl e, st1) \<Rightarrow> (Inl e, write_dump en None st1)
      | (Inr None, st1) \<Rightarrow> (Inl EmptyModelOutput, write_dump en None st1)
      | (Inr (Some json_output), st1) \<Rightarrow>
          (case parse_plan en json_output st1 of
             (Inl e, st2) \<Rightarrow> (Inl e, write_dump en (Some json_output) st2)
           | (Inr plan, st2) \<Rightarrow> (Inr plan, st2)))"









section \<open>Concrete inputs\<close>

text \<open>The truncated text of the specification's example, what the heuristic repair makes
  of it, and the one line the line-salvage fallback keeps of it.\<close>

definition truncated_plan :: pystr where
  "truncated_plan = py ''{\"steps\": [\"Warm up\", \"Main set''"

definition repaired_plan :: pystr where
  "repaired_plan = py ''{\"steps\": [\"Warm up\", \"Main set\"}''"

definition salvaged_fragment :: pystr where
  "salvaged_fragment = py ''steps\": [\"Warm up\", \"Main set''"

text \<open>A text without any brace that is a JSON string of its own.\<close>

definition quoted_line :: pystr where
  "quoted_line = py ''\"Do 10 pushups now\"''"

text \<open>The three lines of the specification's example for the line-salvage fallback.\<close>

definition three_lines :: pystr where
  "three_lines =
     py ''Do 10 pushups'' @ [NEWLINE] @ py ''Rest 30 seconds'' @ [NEWLINE] @ py ''Repeat 3 times''"

section \<open>Responses without text, and a run to evaluate\<close>

text \<open>
  An attribute exposes a text when it has a value and the value is not empty. A response
  exposes no text anywhere when neither its direct text, nor a part of its result, nor a
  part of the content of a candidate, nor the direct text of a candidate does.
\<close>

definition exposes_text :: "pystr attr \<Rightarrow> bool" where
  "exposes_text a = (case a of Has t \<Rightarrow> t \<noteq> [] | _ \<Rightarrow> False)"

definition parts_expose_text :: "part list attr \<Rightarrow> bool" where
  "parts_expose_text a =
     (case a of Has ps \<Rightarrow> list_ex (\<lambda>p. exposes_text (part_text p)) ps | _ \<Rightarrow> False)"

definition candidate_exposes_text :: "candidate \<Rightarrow> bool" where
  "candidate_exposes_text cand =
     ((case cand_content cand of Has c \<Rightarrow> parts_expose_text (content_parts c) | _ \<Rightarrow> False)
      \<or> exposes_text (cand_text cand))"

definition no_text_anywhere :: "response \<Rightarrow> bool" where
  "no_text_anywhere response \<longleftrightarrow>
     \<not> exposes_text (resp_text response)
     \<and> \<not> (case resp_result response of
            Has r \<Rightarrow> parts_expose_text (result_parts r) | _ \<Rightarrow> False)
     \<and> \<not> (case resp_candidates response of
            Has cands \<Rightarrow> list_ex candidate_exposes_text cands | _ \<Rightarrow> False)"

text \<open>
  A completion service that answers every prompt with the direct text \<open>Guide\<close>, one that
  answers with a candidate whose content has a part with an empty text, and one that
  answers the planning prompt with a JSON array. The debug file cannot be written in any
  of them.
\<close>

definition answering_env :: "response \<Rightarrow> env" where
  "answering_env response =
     \<lparr>generate_content = (\<lambda>n prompt. Inr response),
      dump_writable = (\<lambda>n. False),
      api_key = Some (py ''key''),
      PLANNING_PROMPT = py ''Plan for {user_request}'',
      EXECUTION_PROMPT = py ''Guide for {user_request}: {plan}'',
      float_repr = id\<rparr>"


definition empty_response :: response where
  "empty_response =
     Response Absent (Raises (OtherError 0))
       (Has [Candidate (Has (Content (Has [Part (Has [])]))) Absent])"



definition fresh :: state where
  "fresh = \<lparr>events = [], dump_file = None\<rparr>"

definition no_mock :: coach where
  "no_mock = \<lparr>mock_response_text = None\<rparr>"


section \<open>Values that \<open>json.dumps\<close> and \<open>json.loads\<close> take back and forth\<close>

text \<open>
  The text of a float is canonical when \<open>json.loads\<close> reads it back as the same float:
  it is one of the three constants, or a number literal that the printing \<open>fr\<close> leaves
  as it is. The printing of floats is sound when every text it gives is canonical; this
  is what \<open>float.__repr__\<close> guarantees (\<open>fr\<close> is applied to float literals only, its value
  elsewhere is immaterial).
\<close>

definition canonical_float :: "frepr \<Rightarrow> pystr \<Rightarrow> bool" where
  "canonical_float fr r \<longleftrightarrow>
     r = py ''NaN'' \<or> r = py ''Infinity'' \<or> r = py ''-Infinity''
     \<or> match_number fr r = Some (JFloat r, [])"

definition float_repr_ok :: "frepr \<Rightarrow> bool" where
  "float_repr_ok fr \<longleftrightarrow> (\<forall>lit. canonical_float fr (fr lit))"

text \<open>
  The values that the decoder builds: every float canonical, and the keys of an object
  distinct.
\<close>

fun wf_json :: "frepr \<Rightarrow> json \<Rightarrow> bool" where
  "wf_json fr (JFloat r) = canonical_float fr r"
| "wf_json fr (JArr vs) = (\<forall>v \<in> set vs. wf_json fr v)"
| "wf_json fr (JObj kvs) = (distinct (map fst kvs) \<and> (\<forall>kv \<in> set kvs. wf_json fr (snd kv)))"
| "wf_json fr v = True"

text \<open>What follows a value in the output of \<open>json.dumps\<close>: nothing, a comma or a newline.\<close>

definition delimited :: "pystr \<Rightarrow> bool" where
  "delimited rest = (case rest of [] \<Rightarrow> True | c # cs \<Rightarrow> c = COMMA \<or> c = NEWLINE)"

text \<open>The characters with which the text of a value can start.\<close>

definition value_start :: "nat \<Rightarrow> bool" where
  "value_start c \<longleftrightarrow>
     c = DQUOTE \<or> c = LBRACE \<or> c = LBRACKET \<or> c = 110 \<or> c = 116 \<or> c = 102 \<or> c = 45
     \<or> c = 78 \<or> c = 73 \<or> isdigit c"

section \<open>The shape of a plan\<close>

text \<open>
  A plan is an object with exactly the three fields \<open>steps\<close>, \<open>assumptions\<close> and
  \<open>success_criteria\<close>, in any order, each an array of strings.
\<close>

definition is_string_list :: "json \<Rightarrow> bool" where
  "is_string_list v =
     (case v of
        JArr xs \<Rightarrow> list_all (\<lambda>x. case x of JStr s \<Rightarrow> True | _ \<Rightarrow> False) xs
      | _ \<Rightarrow> False)"

definition is_plan :: "json \<Rightarrow> bool" where
  "is_plan v =
     (case v of
        JObj kvs \<Rightarrow>
          distinct (map fst kvs)
          \<and> set (map fst kvs) = {py ''steps'', py ''assumptions'', py ''success_criteria''}
          \<and> list_all (\<lambda>kv. is_string_list (snd kv)) kvs
      | _ \<Rightarrow> False)"

text \<open>A printing of floats that is sound: every float prints as \<open>0.0\<close>.\<close>

definition zero_repr :: frepr where
  "zero_repr lit = py ''0.0''"

section \<open>An object followed by prose\<close>




section \<open>Evaluation\<close>

lemmas str_eval = py_def endswith_def startswith_def rstrip_def lstrip_def strip_def isspace_def
  strip_chars_def linebreak_def

lemmas fence_eval = strip_fences_def sub_leading_fence_def sub_trailing_ws_fence_def
  sub_trailing_fence_def json_tag_ci_def

lemmas json_eval = json_loads_def skip_ws_def json_ws_def rbind_def match_number_def
  scan_integer_def scan_frac_def scan_exp_def isdigit_def scanstring.simps(2) cons_char_def
  unescape_def hex4_def hexval_def dict_of_pairs_def

lemmas dumps_eval = json_dumps_def fallback_def encode_string_def esc_char_def nl_def

lemma parse_and_dump_simps:
  "json_loads fr t = Inl e \<Longrightarrow> parse_and_dump fr t = None"
  "json_loads fr t = Inr v \<Longrightarrow> parse_and_dump fr t = Some (json_dumps v)"
  by (simp_all add: parse_and_dump_def try_except_def)

lemma fix_json_unfold:
  "fix_json fr json_str =
     Inr (first_of (parse_and_dump fr (strip_fences json_str))
         (first_of (brace_strategies fr (strip_fences json_str))
         (first_of (line_salvage (strip_fences json_str))
         (first_of (outer_brace_strategy fr (strip_fences json_str))
                   (steps_only_strategy fr (strip_fences json_str))))))"
  by (simp add: fix_json_def fix_json_body_def try_except_def Let_def)

lemma truncated_strip: "strip_fences truncated_plan = truncated_plan"
  by (simp add: truncated_plan_def str_eval fence_eval)

lemma truncated_loads: "json_loads fr truncated_plan = Inl JSONDecodeError"
  by (simp add: truncated_plan_def str_eval json_eval)

lemma truncated_repair: "repair_candidate truncated_plan 0 = repaired_plan"
  by (simp add: truncated_plan_def repaired_plan_def str_eval repair_candidate_def
      sub_trailing_fence_def close_open_quotes_def)

lemma repaired_loads: "json_loads fr repaired_plan = Inl JSONDecodeError"
  by (simp add: repaired_plan_def str_eval json_eval)

lemma truncated_braces: "brace_strategies fr truncated_plan = None"
proof -
  have "find_char truncated_plan LBRACE = Some 0"
    by (simp add: truncated_plan_def py_def)
  moreover have "scan_braces (drop 0 truncated_plan) 0 0 = None"
    by (simp add: truncated_plan_def py_def)
  ultimately show ?thesis
    by (simp add: brace_strategies_def truncated_repair
        parse_and_dump_simps(1) [OF repaired_loads])
qed

lemma truncated_salvage: "salvage_steps truncated_plan = [salvaged_fragment]"
  by (simp add: truncated_plan_def salvaged_fragment_def str_eval salvage_steps_def
      salvage_inner_def stripped_lines_def sub_leading_fence_def sub_trailing_ws_fence_def)

lemma quoted_line_loads: "json_loads fr quoted_line = Inr (JStr (py ''Do 10 pushups now''))"
  by (simp add: quoted_line_def str_eval json_eval)

lemma quoted_line_strip: "strip_fences quoted_line = quoted_line"
  by (simp add: quoted_line_def str_eval fence_eval)

subsection \<open>Characters that the fence stripping keeps out\<close>

lemma contains_char: "contains s [c] \<longleftrightarrow> c \<in> set s"
  by (induction s) (auto simp: startswith_def)

lemma find_char_None: "find_char s c = None \<longleftrightarrow> c \<notin> set s"
  by (induction s) auto

lemma set_rstrip: "set (rstrip s) \<subseteq> set s"
  unfolding rstrip_def using set_dropWhileD [of _ isspace "rev s"] by auto

lemma set_strip: "set (strip s) \<subseteq> set s"
  unfolding strip_def lstrip_def using set_rstrip [of s] set_dropWhileD [of _ isspace "rstrip s"]
  by auto

lemma set_sub_leading_fence: "set (sub_leading_fence s) \<subseteq> set s"
proof -
  have a: "set (dropWhile isspace t) \<subseteq> set t" for t :: pystr
    using set_dropWhileD [of _ isspace t] by auto
  have b: "set (drop n t) \<subseteq> set t" for n and t :: pystr
    by (rule set_drop_subset)
  have "set (dropWhile isspace (drop 3 s)) \<subseteq> set s"
    using a [of "drop 3 s"] b [of 3 s] by blast
  moreover have "set (dropWhile isspace (drop 4 (drop 3 s))) \<subseteq> set s"
    using a [of "drop 4 (drop 3 s)"] b [of 4 "drop 3 s"] b [of 3 s] by blast
  ultimately show ?thesis
    by (simp add: sub_leading_fence_def Let_def)
qed

lemma set_sub_trailing_ws_fence: "set (sub_trailing_ws_fence s) \<subseteq> set s"
proof -
  have a: "set (rstrip (take n s)) \<subseteq> set s" for n
    using set_rstrip [of "take n s"] set_take_subset [of n s] by blast
  have b: "endswith s (FENCE @ [NEWLINE]) \<Longrightarrow> NEWLINE \<in> set s"
    unfolding endswith_def
    by (metis append_take_drop_id in_set_conv_decomp set_append UnI2 append_assoc)
  show ?thesis
    unfolding sub_trailing_ws_fence_def using a b by auto
qed

lemma set_strip_fences: "set (strip_fences s) \<subseteq> set s"
  unfolding strip_fences_def Let_def
  using set_strip set_sub_leading_fence set_sub_trailing_ws_fence
  by (meson subset_trans)

lemma three_lines_loads: "json_loads fr (strip_fences three_lines) = Inl JSONDecodeError"
  by (simp add: three_lines_def str_eval fence_eval json_eval)

lemma three_lines_lines:
  "stripped_lines (salvage_inner (strip_fences three_lines))
     = [py ''Do 10 pushups'', py ''Rest 30 seconds'', py ''Repeat 3 times'']"
  by (simp add: three_lines_def str_eval fence_eval salvage_inner_def stripped_lines_def)

subsection \<open>The extractor\<close>

lemma try_except_Inr: "\<exists>r. try_except body (\<lambda>e. Inr d) = Inr r"
  by (cases body) (simp_all add: try_except_def)

lemma extract_returns: "\<exists>r. extract_text_from_response response = Inr r"
  unfolding extract_text_from_response_def by (rule try_except_Inr)

lemma fix_json_returns: "\<exists>r. fix_json fr json_str = Inr r"
  unfolding fix_json_def by (rule try_except_Inr)

lemma part_texts_nonempty: "part_texts ps = Inr ts \<Longrightarrow> [] \<notin> set ts"
proof (induction ps arbitrary: ts)
  case Nil
  then show ?case by simp
next
  case (Cons p ps)
  then show ?case
    by (auto simp: bind_exn_def getattr_def truthy_def split: sum.splits attr.splits if_splits)
qed

lemma part_texts_none:
  "part_texts ps = Inr ts \<Longrightarrow> \<not> list_ex (\<lambda>p. exposes_text (part_text p)) ps \<Longrightarrow> ts = []"
proof (induction ps arbitrary: ts)
  case Nil
  then show ?case by simp
next
  case (Cons p ps)
  then show ?case
    by (auto simp: bind_exn_def getattr_def truthy_def exposes_text_def
        split: sum.splits attr.splits if_splits)
qed

lemma candidate_texts_nonempty: "candidate_texts cand = Inr ts \<Longrightarrow> [] \<notin> set ts"
  by (auto simp: candidate_texts_def bind_exn_def getattr_def truthy_def
      dest: part_texts_nonempty split: sum.splits attr.splits if_splits option.splits)

lemma candidate_texts_none:
  "candidate_texts cand = Inr ts \<Longrightarrow> \<not> candidate_exposes_text cand \<Longrightarrow> ts = []"
  by (auto simp: candidate_texts_def candidate_exposes_text_def parts_expose_text_def
      exposes_text_def bind_exn_def getattr_def truthy_def
      dest: part_texts_none split: sum.splits attr.splits if_splits option.splits)

lemma candidates_texts_nonempty: "candidates_texts cands = Inr ts \<Longrightarrow> [] \<notin> set ts"
proof (induction cands arbitrary: ts)
  case Nil
  then show ?case by simp
next
  case (Cons c cs)
  then show ?case
    by (auto simp: bind_exn_def dest: candidate_texts_nonempty split: sum.splits)
qed

lemma candidates_texts_none:
  "candidates_texts cands = Inr ts \<Longrightarrow> \<not> list_ex candidate_exposes_text cands \<Longrightarrow> ts = []"
proof (induction cands arbitrary: ts)
  case Nil
  then show ?case by simp
next
  case (Cons c cs)
  then show ?case
    by (auto simp: bind_exn_def dest: candidate_texts_none split: sum.splits)
qed

lemma collect_parts_nonempty: "collect_parts response = Inr ts \<Longrightarrow> [] \<notin> set ts"
  by (auto simp: collect_parts_def bind_exn_def getattr_def truthy_def
      dest: part_texts_nonempty candidates_texts_nonempty
      split: sum.splits attr.splits if_splits option.splits)

lemma collect_parts_none:
  "collect_parts response = Inr ts \<Longrightarrow> no_text_anywhere response \<Longrightarrow> ts = []"
  by (auto simp: collect_parts_def no_text_anywhere_def parts_expose_text_def
      bind_exn_def getattr_def truthy_def
      dest: part_texts_none candidates_texts_none
      split: sum.splits attr.splits if_splits option.splits)

lemma join_nonempty:
  assumes "ts \<noteq> []" and "[] \<notin> set ts"
  shows "join sep ts \<noteq> []"
proof (cases ts)
  case Nil
  with assms(1) show ?thesis by simp
next
  case (Cons x xs)
  with assms(2) show ?thesis by (cases xs) auto
qed

lemma direct_text_nonempty: "direct_text response \<noteq> Some []"
  by (auto simp: direct_text_def try_except_def bind_exn_def getattr_def truthy_def
      split: attr.splits sum.splits)

lemma direct_text_none: "\<not> exposes_text (resp_text response) \<Longrightarrow> direct_text response = None"
  by (auto simp: direct_text_def try_except_def bind_exn_def getattr_def truthy_def
      exposes_text_def split: attr.splits sum.splits)

lemma extract_never_empty: "extract_text_from_response response \<noteq> Inr (Some [])"
proof (cases "direct_text response")
  case None
  show ?thesis
  proof (cases "collect_parts response")
    case (Inl e)
    with None show ?thesis
      by (simp add: extract_text_from_response_def try_except_def bind_exn_def)
  next
    case (Inr ts)
    with None collect_parts_nonempty [OF Inr] join_nonempty [of ts "[NEWLINE]"] show ?thesis
      by (simp add: extract_text_from_response_def try_except_def bind_exn_def)
  qed
next
  case (Some t)
  with direct_text_nonempty [of response] show ?thesis
    by (simp add: extract_text_from_response_def try_except_def)
qed

lemma extract_no_text:
  assumes "no_text_anywhere response"
  shows "extract_text_from_response response = Inr None"
proof -
  have d: "direct_text response = None"
    using assms by (simp add: no_text_anywhere_def direct_text_none)
  show ?thesis
  proof (cases "collect_parts response")
    case (Inl e)
    with d show ?thesis
      by (simp add: extract_text_from_response_def try_except_def bind_exn_def)
  next
    case (Inr ts)
    with d collect_parts_none [OF Inr assms] show ?thesis
      by (simp add: extract_text_from_response_def try_except_def bind_exn_def)
  qed
qed

subsection \<open>The stages\<close>

lemma generate_filter_log [simp]:
  "filter is_generate (events (log_event ev st)) =
     filter is_generate (events st) @ (if is_generate ev then [ev] else [])"
  by (simp add: log_event_def)

lemma parse_filter_log [simp]:
  "filter is_parse (events (log_event ev st)) =
     filter is_parse (events st) @ (if is_parse ev then [ev] else [])"
  by (simp add: log_event_def)

lemma write_dump_events:
  "events (write_dump en jo st) =
     events st @ [DumpWrite (or_empty jo) (dump_writable en (length (filter is_dump_write (events st))))]"
  by (simp add: write_dump_def log_event_def Let_def)

lemma write_dump_generate [simp]:
  "filter is_generate (events (write_dump en jo st)) = filter is_generate (events st)"
  by (simp add: write_dump_events is_generate_def)

lemma write_dump_parse [simp]:
  "filter is_parse (events (write_dump en jo st)) = filter is_parse (events st)"
  by (simp add: write_dump_events is_parse_def)



lemma stage_output_model:
  "\<not> truthy (mock_response_text self) \<Longrightarrow>
     generate_content en (length (filter is_generate (events st))) prompt = Inr response \<Longrightarrow>
     stage_output en self prompt st
       = (extract_text_from_response response, log_event (Generate prompt) st)"
  by (simp add: stage_output_def call_model_def)





subsection \<open>Evaluating runs\<close>

lemmas env_eval = answering_env_def fresh_def no_mock_def truthy_def

lemma empty_response_raises:
  "direct_text empty_response = None \<and> collect_parts empty_response = Inl (OtherError 0)"
  by (simp add: empty_response_def direct_text_def collect_parts_def try_except_def
      bind_exn_def getattr_def truthy_def)

lemma empty_response_no_text: "no_text_anywhere empty_response"
  by (simp add: empty_response_def no_text_anywhere_def exposes_text_def
      candidate_exposes_text_def parts_expose_text_def)





section \<open>\<open>json.loads\<close> after \<open>json.dumps\<close>\<close>

subsection \<open>Strings\<close>

lemma hexval_hexdigit: "d < 16 \<Longrightarrow> hexval (hexdigit d) = Some d"
  by (auto simp: hexval_def hexdigit_def)

lemma scanstring_esc:
  "scanstring (esc_char c @ t) = cons_char c (scanstring t)"
proof -
  consider "c = DQUOTE" | "c = BACKSLASH" | "c = 10" | "c = 13" | "c = 9" | "c = 8" | "c = 12"
    | "c < 32" "c \<noteq> 10" "c \<noteq> 13" "c \<noteq> 9" "c \<noteq> 8" "c \<noteq> 12"
    | "32 \<le> c" "c \<noteq> DQUOTE" "c \<noteq> BACKSLASH"
    by linarith
  then show ?thesis
  proof cases
    case 8
    have h1: "hexval (hexdigit (c div 16)) = Some (c div 16)"
      using 8(1) by (intro hexval_hexdigit) simp
    have h2: "hexval (hexdigit (c mod 16)) = Some (c mod 16)"
      by (intro hexval_hexdigit) simp
    have h0: "hexval 48 = Some 0"
      by (simp add: hexval_def)
    have "hex4 [48, 48, hexdigit (c div 16), hexdigit (c mod 16)] = Some c"
      by (simp add: hex4_def h0 h1 h2)
    then show ?thesis
      using 8 by (simp add: esc_char_def scanstring.simps(2) startswith_def)
  qed (simp_all add: esc_char_def scanstring.simps(2) unescape_def)
qed

lemma scanstring_encode:
  "scanstring (concat (map esc_char s) @ DQUOTE # rest) = Some (s, rest)"
proof (induction s)
  case Nil
  show ?case by (simp add: scanstring.simps(2))
next
  case (Cons c s)
  then show ?case by (simp add: scanstring_esc cons_char_def)
qed


subsection \<open>Numbers\<close>

lemma delimited_not_digit: "delimited rest \<Longrightarrow> takeWhile isdigit rest = []"
  by (cases rest) (auto simp: delimited_def isdigit_def)

lemma takeWhile_delimited:
  "delimited rest \<Longrightarrow> takeWhile isdigit (cs @ rest) = takeWhile isdigit cs"
  by (induction cs) (simp_all add: delimited_not_digit)

lemma dropWhile_delimited:
  "delimited rest \<Longrightarrow> dropWhile isdigit (cs @ rest) = dropWhile isdigit cs @ rest"
proof (induction cs)
  case Nil
  then show ?case
    using delimited_not_digit [of rest] by (cases rest) (auto split: if_splits)
next
  case (Cons c cs)
  then show ?case by simp
qed

lemma scan_integer_delimited:
  assumes "scan_integer a = Some (i, r)" and "delimited rest"
  shows "scan_integer (a @ rest) = Some (i, r @ rest)"
proof (cases "startswith a [45]")
  case True
  then obtain b where a: "a = 45 # b"
    by (cases a) (auto simp: startswith_def)
  with assms(1) obtain c cs where b: "b = c # cs"
    by (cases b) (auto simp: scan_integer_def startswith_def Let_def)
  show ?thesis
    using assms a b
    by (auto simp: scan_integer_def startswith_def takeWhile_delimited dropWhile_delimited
        Let_def split: if_splits)
next
  case False
  with assms(1) obtain c cs where a: "a = c # cs"
    by (cases a) (auto simp: scan_integer_def startswith_def Let_def)
  show ?thesis
    using assms a False
    by (auto simp: scan_integer_def startswith_def takeWhile_delimited dropWhile_delimited
        Let_def split: if_splits)
qed

lemma scan_frac_delimited:
  assumes "scan_frac a = (f, r)" and "delimited rest"
  shows "scan_frac (a @ rest) = (f, r @ rest)"
proof (cases a)
  case Nil
  with assms show ?thesis
    by (cases rest; cases "tl rest")
      (auto simp: scan_frac_def delimited_def isdigit_def split: list.splits)
next
  case (Cons c b)
  show ?thesis
  proof (cases b)
    case Nil
    with Cons assms show ?thesis
      by (cases rest) (auto simp: scan_frac_def delimited_def isdigit_def)
  next
    case (Cons d b')
    with \<open>a = c # b\<close> assms show ?thesis
      using takeWhile_delimited [OF assms(2), of "d # b'"]
        dropWhile_delimited [OF assms(2), of "d # b'"]
      by (auto simp: scan_frac_def split: if_splits)
  qed
qed

lemma scan_exp_delimited:
  assumes "scan_exp a = (x, r)" and "delimited rest"
  shows "scan_exp (a @ rest) = (x, r @ rest)"
proof (cases a)
  case Nil
  with assms show ?thesis
    by (cases rest) (auto simp: scan_exp_def delimited_def startswith_def isdigit_def Let_def)
next
  case (Cons c b)
  note a = Cons
  show ?thesis
  proof (cases "c = 101 \<or> c = 69")
    case False
    with a assms show ?thesis
      by (auto simp: scan_exp_def)
  next
    case True
    note e = True
    show ?thesis
    proof (cases b)
      case Nil
      with a e assms show ?thesis
        by (cases rest) (auto simp: scan_exp_def delimited_def startswith_def isdigit_def Let_def)
    next
      case (Cons d b')
      note b = Cons
      show ?thesis
      proof (cases "d = 43 \<or> d = 45")
        case False
        with a b e assms show ?thesis
          using takeWhile_delimited [OF assms(2), of "d # b'"]
            dropWhile_delimited [OF assms(2), of "d # b'"]
          by (auto simp: scan_exp_def startswith_def Let_def split: if_splits)
      next
        case True
        show ?thesis
        proof (cases b')
          case Nil
          with True a b e assms show ?thesis
            by (cases rest)
              (auto simp: scan_exp_def delimited_def startswith_def isdigit_def Let_def)
        next
          case (Cons g b'')
          with True a b e assms show ?thesis
            using takeWhile_delimited [OF assms(2), of "g # b''"]
              dropWhile_delimited [OF assms(2), of "g # b''"]
            by (auto simp: scan_exp_def startswith_def Let_def split: if_splits)
        qed
      qed
    qed
  qed
qed

lemma match_number_delimited:
  assumes "match_number fr a = Some (v, r)" and "delimited rest"
  shows "match_number fr (a @ rest) = Some (v, r @ rest)"
proof -
  from assms(1) obtain i r0 where i: "scan_integer a = Some (i, r0)"
    by (cases "scan_integer a") (auto simp: match_number_def)
  obtain f r1 where f: "scan_frac r0 = (f, r1)" by (cases "scan_frac r0")
  obtain x r2 where x: "scan_exp r1 = (x, r2)" by (cases "scan_exp r1")
  show ?thesis
    using assms(1) i f x scan_integer_delimited [OF i assms(2)]
      scan_frac_delimited [OF f assms(2)] scan_exp_delimited [OF x assms(2)]
    by (auto simp: match_number_def split: if_splits)
qed


lemma digits_isdigit: "c \<in> set (digits n) \<Longrightarrow> isdigit c"
proof (induction n rule: digits.induct)
  case (1 n)
  then show ?case
    by (subst (asm) digits.simps) (auto simp: isdigit_def split: if_splits)
qed

lemma digits_nonempty: "digits n \<noteq> []"
  by (subst digits.simps) simp

lemma digits_zero: "digits 0 = [48]"
  by (subst digits.simps) simp

lemma digits_hd: "n \<noteq> 0 \<Longrightarrow> 49 \<le> hd (digits n) \<and> hd (digits n) \<le> 57"
proof (induction n rule: digits.induct)
  case (1 n)
  show ?case
  proof (cases "n < 10")
    case True
    with 1(2) show ?thesis by (subst digits.simps, subst (2) digits.simps) simp
  next
    case False
    then have "n div 10 \<noteq> 0" by simp
    with 1(1) False have "49 \<le> hd (digits (n div 10)) \<and> hd (digits (n div 10)) \<le> 57"
      by simp
    with False digits_nonempty [of "n div 10"] show ?thesis
      by (subst digits.simps, subst (2) digits.simps) simp
  qed
qed

lemma nat_of_digits_snoc: "nat_of_digits (xs @ [d]) = 10 * nat_of_digits xs + (d - 48)"
  by (simp add: nat_of_digits_def)

lemma nat_of_digits_digits: "nat_of_digits (digits n) = n"
proof (induction n rule: digits.induct)
  case (1 n)
  show ?case
  proof (cases "n < 10")
    case True
    then show ?thesis by (subst digits.simps) (simp add: nat_of_digits_def)
  next
    case False
    with 1 show ?thesis by (subst digits.simps) (simp add: nat_of_digits_snoc)
  qed
qed

lemma takeWhile_digits: "takeWhile isdigit (tl (digits n)) = tl (digits n)"
  by (rule takeWhile_eq_all_conv [THEN iffD2])
    (use digits_isdigit digits_nonempty in \<open>auto dest: list.set_sel(2)\<close>)

lemma dropWhile_digits: "dropWhile isdigit (tl (digits n)) = []"
  using digits_isdigit digits_nonempty by (auto dest: list.set_sel(2))

lemma scan_integer_digits: "scan_integer (digits n) = Some (digits n, [])"
proof (cases "n = 0")
  case True
  then show ?thesis by (simp add: digits_zero scan_integer_def startswith_def)
next
  case False
  obtain c cs where d: "digits n = c # cs"
    using digits_nonempty [of n] by (cases "digits n") auto
  with digits_hd [OF False] have c: "49 \<le> c" "c \<le> 57" by auto
  from d have cs: "cs = tl (digits n)" by simp
  show ?thesis
    using c d takeWhile_digits [of n] dropWhile_digits [of n]
    by (simp add: scan_integer_def startswith_def cs [symmetric])
qed

lemma scan_integer_minus_digits: "scan_integer (45 # digits n) = Some (45 # digits n, [])"
proof (cases "n = 0")
  case True
  then show ?thesis by (simp add: digits_zero scan_integer_def startswith_def)
next
  case False
  obtain c cs where d: "digits n = c # cs"
    using digits_nonempty [of n] by (cases "digits n") auto
  with digits_hd [OF False] have c: "49 \<le> c" "c \<le> 57" by auto
  from d have cs: "cs = tl (digits n)" by simp
  show ?thesis
    using c d takeWhile_digits [of n] dropWhile_digits [of n]
    by (simp add: scan_integer_def startswith_def cs [symmetric])
qed

lemma digits_not_minus: "\<not> startswith (digits n) [45]"
proof -
  obtain c cs where d: "digits n = c # cs"
    using digits_nonempty [of n] by (cases "digits n") auto
  then have "isdigit c" using digits_isdigit [of c n] by simp
  with d show ?thesis by (auto simp: startswith_def isdigit_def)
qed

lemma int_of_literal_repr: "int_of_literal (int_repr i) = i"
  using digits_not_minus [of "nat i"]
  by (simp add: int_of_literal_def int_repr_def startswith_def nat_of_digits_digits)

lemma match_number_int: "match_number fr (int_repr i) = Some (JInt i, [])"
proof -
  have "scan_integer (int_repr i) = Some (int_repr i, [])"
    by (simp add: int_repr_def scan_integer_digits scan_integer_minus_digits)
  then show ?thesis
    by (simp add: match_number_def scan_frac_def scan_exp_def int_of_literal_repr)
qed


subsection \<open>Where a value starts\<close>

lemma value_start_not_ws: "value_start c \<Longrightarrow> \<not> json_ws c"
  by (auto simp: value_start_def json_ws_def isdigit_def)

lemma skip_ws_start: "value_start c \<Longrightarrow> skip_ws (c # cs) = c # cs"
  by (simp add: skip_ws_def value_start_not_ws)

lemma skip_ws_spaces: "skip_ws (replicate k SPACE @ t) = skip_ws t"
  by (induction k) (simp_all add: skip_ws_def json_ws_def)

lemma skip_ws_nl: "skip_ws (nl l @ t) = skip_ws t"
  using skip_ws_spaces [of "2 * l" t] by (simp add: skip_ws_def nl_def json_ws_def)

lemma int_repr_start: "\<exists>c cs. int_repr i = c # cs \<and> value_start c"
proof -
  obtain c cs where d: "digits (nat (if i < 0 then - i else i)) = c # cs"
    using digits_nonempty by (cases "digits (nat (if i < 0 then - i else i))") auto
  then have "isdigit c"
    using digits_isdigit [of c] by (metis list.set_intros(1))
  with d show ?thesis
    by (auto simp: int_repr_def value_start_def)
qed

lemma canonical_start:
  assumes "canonical_float fr r"
  shows "\<exists>c cs. r = c # cs \<and> value_start c"
proof -
  consider "r = py ''NaN''" | "r = py ''Infinity''" | "r = py ''-Infinity''"
    | "match_number fr r = Some (JFloat r, [])"
    using assms by (auto simp: canonical_float_def)
  then show ?thesis
  proof cases
    case 4
    then obtain i r0 where "scan_integer r = Some (i, r0)"
      by (cases "scan_integer r") (auto simp: match_number_def)
    then show ?thesis
      by (cases r; cases "tl r")
        (auto simp: scan_integer_def startswith_def value_start_def isdigit_def Let_def
          split: if_splits)
  qed (simp_all add: py_def value_start_def)
qed

lemma enc_start: "wf_json fr v \<Longrightarrow> \<exists>c cs. enc l v = c # cs \<and> value_start c"
proof (cases v)
  case (JInt i)
  then show ?thesis using int_repr_start [of i] by simp
next
  case (JFloat r)
  assume "wf_json fr v"
  with JFloat show ?thesis using canonical_start [of fr r] by simp
qed (simp_all add: py_def value_start_def encode_string_def)


subsection \<open>Decoding what was encoded\<close>

lemma parse_null: "parse_value fr (Suc n) (py ''null'' @ rest) = Ok (JNull, rest)"
  by (simp add: py_def startswith_def)

lemma parse_true: "parse_value fr (Suc n) (py ''true'' @ rest) = Ok (JBool True, rest)"
  by (simp add: py_def startswith_def)

lemma parse_false: "parse_value fr (Suc n) (py ''false'' @ rest) = Ok (JBool False, rest)"
  by (simp add: py_def startswith_def)

lemma parse_number:
  assumes "match_number fr (c # cs) = Some (v, r)"
  shows "parse_value fr (Suc n) (c # cs) = Ok (v, r)"
proof -
  from assms obtain i r0 where "scan_integer (c # cs) = Some (i, r0)"
    by (cases "scan_integer (c # cs)") (auto simp: match_number_def)
  then have "c = 45 \<or> isdigit c"
    by (cases cs) (auto simp: scan_integer_def startswith_def isdigit_def Let_def split: if_splits)
  then show ?thesis
    using assms by (auto simp: py_def startswith_def isdigit_def)
qed

lemma parse_int:
  assumes "delimited rest"
  shows "parse_value fr (Suc n) (int_repr i @ rest) = Ok (JInt i, rest)"
proof -
  obtain c cs where s: "int_repr i = c # cs"
    using int_repr_start [of i] by auto
  have "match_number fr (int_repr i @ rest) = Some (JInt i, [] @ rest)"
    using match_number_int assms by (rule match_number_delimited)
  then show ?thesis
    using parse_number [of fr c "cs @ rest" "JInt i" rest n] by (simp add: s)
qed

lemma parse_float:
  assumes "canonical_float fr r" and "delimited rest"
  shows "parse_value fr (Suc n) (r @ rest) = Ok (JFloat r, rest)"
proof -
  consider "r = py ''NaN''" | "r = py ''Infinity''" | "r = py ''-Infinity''"
    | "match_number fr r = Some (JFloat r, [])"
    using assms(1) by (auto simp: canonical_float_def)
  then show ?thesis
  proof cases
    case 4
    obtain c cs where s: "r = c # cs"
      using canonical_start [OF assms(1)] by auto
    have "match_number fr (r @ rest) = Some (JFloat r, [] @ rest)"
      using 4 assms(2) by (rule match_number_delimited)
    then show ?thesis
      using parse_number [of fr c "cs @ rest" "JFloat r" rest n] by (simp add: s)
  qed (simp_all add: py_def startswith_def match_number_def scan_integer_def)
qed

lemma parse_string: "parse_value fr (Suc n) (encode_string s @ rest) = Ok (JStr s, rest)"
  by (simp add: encode_string_def scanstring_encode)

lemma parse_empty_array: "parse_value fr (Suc n) (py ''[]'' @ rest) = Ok (JArr [], rest)"
  by (simp add: py_def skip_ws_def json_ws_def)

lemma parse_empty_object: "parse_value fr (Suc n) (py ''{}'' @ rest) = Ok (JObj [], rest)"
  by (simp add: py_def skip_ws_def json_ws_def)

lemma enc_length: "wf_json fr v \<Longrightarrow> 0 < length (enc l v)"
  using enc_start [of fr v l] by auto

lemma delimited_nl: "delimited (nl l @ t)"
  by (simp add: delimited_def nl_def)

lemma delimited_comma: "delimited (COMMA # t)"
  by (simp add: delimited_def)

lemma skip_ws_keep: "\<not> json_ws c \<Longrightarrow> skip_ws (c # t) = c # t"
  by (simp add: skip_ws_def)

lemma join_Cons_Cons: "join sep ((c # cs) # xs) = c # join sep (cs # xs)"
  by (cases xs) simp_all

lemma parse_elems_enc:
  assumes "\<And>v n rest. v \<in> set vs \<Longrightarrow> delimited rest \<Longrightarrow> length (enc k v) \<le> n \<Longrightarrow>
             parse_value fr n (enc k v @ rest) = Ok (v, rest)"
    and "\<And>v. v \<in> set vs \<Longrightarrow> \<exists>c cs. enc k v = c # cs \<and> value_start c"
    and "vs \<noteq> []"
    and "length (join (COMMA # nl k) (map (enc k) vs)) \<le> m"
  shows "parse_elems fr (Suc m) (join (COMMA # nl k) (map (enc k) vs) @ nl l @ RBRACKET # rest)
           = Ok (vs, rest)"
  using assms
proof (induction vs arbitrary: m)
  case Nil
  then show ?case by simp
next
  case (Cons v vs)
  show ?case
  proof (cases vs)
    case Nil
    have "parse_value fr m (enc k v @ nl l @ RBRACKET # rest) = Ok (v, nl l @ RBRACKET # rest)"
      using Cons.prems(1) [of v "nl l @ RBRACKET # rest" m] Cons.prems(4) Nil
      by (simp add: delimited_nl)
    then show ?thesis
      using Nil by (simp add: rbind_def skip_ws_nl skip_ws_keep json_ws_def)
  next
    case (Cons w ws)
    let ?tail = "join (COMMA # nl k) (map (enc k) vs) @ nl l @ RBRACKET # rest"
    have len: "length (enc k v) \<le> m" "length (join (COMMA # nl k) (map (enc k) vs)) < m"
      using Cons.prems(4) Cons Cons.prems(2) [of v] by auto
    then obtain m' where m: "m = Suc m'"
      by (cases m) auto
    have pv: "parse_value fr m (enc k v @ COMMA # nl k @ ?tail) = Ok (v, COMMA # nl k @ ?tail)"
      using Cons.prems(1) [of v "COMMA # nl k @ ?tail" m] len(1)
      by (simp add: delimited_comma)
    obtain c cs where w: "enc k w = c # cs" "value_start c"
      using Cons.prems(2) [of w] Cons by auto
    have st: "skip_ws (nl k @ ?tail) = ?tail"
      using w Cons by (simp add: skip_ws_nl skip_ws_start join_Cons_Cons)
    have "parse_elems fr (Suc m') ?tail = Ok (vs, rest)"
      using Cons.IH [of m'] Cons.prems(1,2) len(2) Cons m by simp
    with pv st show ?thesis
      using Cons m by (simp add: rbind_def skip_ws_keep json_ws_def)
  qed
qed


lemma parse_members_step:
  assumes "parse_value fr m (enc k v @ rest) = Ok (v, rest)"
    and "\<exists>c cs. enc k v = c # cs \<and> value_start c"
  shows "parse_members fr (Suc m) (encode_string key @ [COLON, SPACE] @ enc k v @ rest)
     = (case skip_ws rest of
          [] \<Rightarrow> DecodeError
        | d # r3 \<Rightarrow>
            if d = RBRACE then Ok ([(key, v)], r3)
            else if d = COMMA then
              rbind (parse_members fr m (skip_ws r3)) (\<lambda>(ps, r4). Ok ((key, v) # ps, r4))
            else DecodeError)"
proof -
  obtain c cs where s: "enc k v = c # cs" "value_start c"
    using assms(2) by auto
  have sc: "scanstring (concat (map esc_char key) @ DQUOTE # COLON # SPACE # enc k v @ rest)
      = Some (key, COLON # SPACE # enc k v @ rest)"
    by (rule scanstring_encode)
  have sk: "skip_ws (SPACE # enc k v @ rest) = enc k v @ rest"
    using s skip_ws_start [of c "cs @ rest"] by (simp add: skip_ws_def json_ws_def)
  show ?thesis
    using assms(1)
    by (simp add: encode_string_def sc sk skip_ws_keep json_ws_def rbind_def)
qed

lemma parse_members_enc:
  assumes "\<And>kv n rest. kv \<in> set kvs \<Longrightarrow> delimited rest \<Longrightarrow> length (enc k (snd kv)) \<le> n \<Longrightarrow>
             parse_value fr n (enc k (snd kv) @ rest) = Ok (snd kv, rest)"
    and "\<And>kv. kv \<in> set kvs \<Longrightarrow> \<exists>c cs. enc k (snd kv) = c # cs \<and> value_start c"
    and "kvs \<noteq> []"
    and "length (join (COMMA # nl k)
            (map (\<lambda>kv. encode_string (fst kv) @ [COLON, SPACE] @ enc k (snd kv)) kvs)) \<le> m"
  shows "parse_members fr (Suc m)
           (join (COMMA # nl k)
              (map (\<lambda>kv. encode_string (fst kv) @ [COLON, SPACE] @ enc k (snd kv)) kvs)
            @ nl l @ RBRACE # rest)
         = Ok (kvs, rest)"
  using assms
proof (induction kvs arbitrary: m)
  case Nil
  then show ?case by simp
next
  case (Cons kv kvs)
  let ?mem = "\<lambda>kv. encode_string (fst kv) @ [COLON, SPACE] @ enc k (snd kv)"
  obtain key v where kv: "kv = (key, v)" by (cases kv)
  have st: "\<exists>c cs. enc k v = c # cs \<and> value_start c"
    using Cons.prems(2) [of kv] kv by simp
  show ?case
  proof (cases kvs)
    case Nil
    have "parse_value fr m (enc k v @ nl l @ RBRACE # rest) = Ok (v, nl l @ RBRACE # rest)"
      using Cons.prems(1) [of kv "nl l @ RBRACE # rest" m] Cons.prems(4) Nil kv
      by (simp add: delimited_nl)
    from parse_members_step [OF this st, of key] show ?thesis
      using Nil kv by (simp add: skip_ws_nl skip_ws_keep json_ws_def)
  next
    case (Cons kw kws)
    let ?tail = "join (COMMA # nl k) (map ?mem kvs) @ nl l @ RBRACE # rest"
    have len: "length (enc k v) \<le> m" "length (join (COMMA # nl k) (map ?mem kvs)) < m"
      using Cons.prems(4) Cons kv by (auto simp: encode_string_def)
    then obtain m' where m: "m = Suc m'"
      by (cases m) auto
    have pv: "parse_value fr m (enc k v @ COMMA # nl k @ ?tail) = Ok (v, COMMA # nl k @ ?tail)"
      using Cons.prems(1) [of kv "COMMA # nl k @ ?tail" m] len(1) kv
      by (simp add: delimited_comma)
    have hd: "\<exists>t. ?tail = DQUOTE # t"
      using Cons by (simp add: encode_string_def join_Cons_Cons)
    then have sk: "skip_ws (nl k @ ?tail) = ?tail"
      by (auto simp: skip_ws_nl skip_ws_keep json_ws_def)
    have "parse_members fr (Suc m') ?tail = Ok (kvs, rest)"
      using Cons.IH [of m'] Cons.prems(1,2) len(2) Cons m by simp
    with parse_members_step [OF pv st, of key] sk show ?thesis
      using Cons m kv by (simp add: skip_ws_keep json_ws_def rbind_def)
  qed
qed

lemma update_fresh: "key \<notin> fst ` set al \<Longrightarrow> AList.update key v al = al @ [(key, v)]"
  by (induction al) auto

lemma dict_of_pairs_append:
  "distinct (map fst (acc @ kvs)) \<Longrightarrow>
     foldl (\<lambda>d kv. AList.update (fst kv) (snd kv) d) acc kvs = acc @ kvs"
proof (induction kvs arbitrary: acc)
  case Nil
  then show ?case by simp
next
  case (Cons kv kvs)
  have "fst kv \<notin> fst ` set acc"
    using Cons.prems by auto
  then have "AList.update (fst kv) (snd kv) acc = acc @ [kv]"
    by (simp add: update_fresh)
  moreover have "distinct (map fst ((acc @ [kv]) @ kvs))"
    using Cons.prems by simp
  ultimately show ?case
    using Cons.IH [of "acc @ [kv]"] by simp
qed

lemma dict_of_pairs_distinct: "distinct (map fst kvs) \<Longrightarrow> dict_of_pairs kvs = kvs"
  using dict_of_pairs_append [of "[]" kvs] by (simp add: dict_of_pairs_def)

lemma parse_value_array:
  "skip_ws cs = d # ds \<Longrightarrow> d \<noteq> RBRACKET \<Longrightarrow>
     parse_value fr (Suc n) (LBRACKET # cs)
       = rbind (parse_elems fr n (d # ds)) (\<lambda>(vs, r). Ok (JArr vs, r))"
  by simp

lemma parse_value_object:
  "skip_ws cs = DQUOTE # ds \<Longrightarrow>
     parse_value fr (Suc n) (LBRACE # cs)
       = rbind (parse_members fr n (DQUOTE # ds))
           (\<lambda>(pairs, r). Ok (JObj (dict_of_pairs pairs), r))"
  by simp

lemma parse_enc:
  "wf_json fr v \<Longrightarrow> delimited rest \<Longrightarrow> length (enc l v) \<le> n \<Longrightarrow>
     parse_value fr n (enc l v @ rest) = Ok (v, rest)"
proof (induction v arbitrary: l n rest)
  case JNull
  then obtain n' where "n = Suc n'" by (cases n) (auto simp: py_def)
  then show ?case by (simp add: parse_null del: parse_value.simps)
next
  case (JBool b)
  then obtain n' where "n = Suc n'" by (cases n) (auto simp: py_def split: if_splits)
  then show ?case by (simp add: parse_true parse_false del: parse_value.simps)
next
  case (JInt i)
  then obtain n' where "n = Suc n'"
    using int_repr_start [of i] by (cases n) auto
  with JInt show ?case by (simp add: parse_int del: parse_value.simps)
next
  case (JFloat r)
  then obtain n' where "n = Suc n'"
    using canonical_start [of fr r] by (cases n) auto
  with JFloat show ?case by (simp add: parse_float del: parse_value.simps)
next
  case (JStr s)
  then obtain n' where "n = Suc n'" by (cases n) (auto simp: encode_string_def)
  then show ?case by (simp add: parse_string del: parse_value.simps)
next
  case (JArr vs)
  show ?case
  proof (cases "vs = []")
    case True
    with JArr.prems obtain n' where "n = Suc n'" by (cases n) (auto simp: py_def)
    with True show ?thesis by (simp add: parse_empty_array del: parse_value.simps)
  next
    case False
    let ?items = "join (COMMA # nl (l + 1)) (map (enc (l + 1)) vs)"
    from JArr.prems(3) False obtain n' where n: "n = Suc n'" by (cases n) auto
    from JArr.prems(3) False n obtain m where m: "n' = Suc m" "length ?items \<le> m"
      by (cases n') (auto simp: nl_def)
    have wf: "\<And>v. v \<in> set vs \<Longrightarrow> wf_json fr v"
      using JArr.prems(1) by simp
    have ih: "\<And>v n rest. v \<in> set vs \<Longrightarrow> delimited rest \<Longrightarrow> length (enc (l + 1) v) \<le> n \<Longrightarrow>
        parse_value fr n (enc (l + 1) v @ rest) = Ok (v, rest)"
      using JArr.IH wf by blast
    have st: "\<And>v. v \<in> set vs \<Longrightarrow> \<exists>c cs. enc (l + 1) v = c # cs \<and> value_start c"
      using wf enc_start by blast
    have pe: "parse_elems fr (Suc m) (?items @ nl l @ RBRACKET # rest) = Ok (vs, rest)"
      using ih st False m(2) by (rule parse_elems_enc)
    obtain v0 vs0 where vs: "vs = v0 # vs0"
      using False by (cases vs) auto
    obtain c cs where c: "enc (l + 1) v0 = c # cs" "value_start c"
      using st [of v0] vs by auto
    obtain t where hd: "?items @ nl l @ RBRACKET # rest = c # t"
      using vs c(1) by (simp add: join_Cons_Cons)
    have ne: "c \<noteq> RBRACKET"
      using c(2) by (auto simp: value_start_def isdigit_def)
    have sk: "skip_ws (nl (l + 1) @ ?items @ nl l @ RBRACKET # rest) = c # t"
      unfolding skip_ws_nl hd using c(2) by (rule skip_ws_start)
    have "enc l (JArr vs) @ rest = LBRACKET # (nl (l + 1) @ ?items @ nl l @ RBRACKET # rest)"
      using False by simp
    then have "parse_value fr n (enc l (JArr vs) @ rest)
        = rbind (parse_elems fr (Suc m) (c # t)) (\<lambda>(vs, r). Ok (JArr vs, r))"
      using parse_value_array [OF sk ne, of fr "Suc m"] n m(1) by simp
    also have "\<dots> = Ok (JArr vs, rest)"
      using pe unfolding hd by (simp add: rbind_def del: parse_elems.simps)
    finally show ?thesis .
  qed
next
  case (JObj kvs)
  show ?case
  proof (cases "kvs = []")
    case True
    with JObj.prems obtain n' where "n = Suc n'" by (cases n) (auto simp: py_def)
    with True show ?thesis by (simp add: parse_empty_object del: parse_value.simps)
  next
    case False
    let ?mem = "\<lambda>kv. encode_string (fst kv) @ [COLON, SPACE] @ enc (l + 1) (snd kv)"
    let ?items = "join (COMMA # nl (l + 1)) (map ?mem kvs)"
    from JObj.prems(3) False obtain n' where n: "n = Suc n'" by (cases n) auto
    from JObj.prems(3) False n obtain m where m: "n' = Suc m" "length ?items \<le> m"
      by (cases n') (auto simp: nl_def)
    have wf: "\<And>kv. kv \<in> set kvs \<Longrightarrow> wf_json fr (snd kv)"
      using JObj.prems(1) by simp
    have ih: "\<And>kv n rest. kv \<in> set kvs \<Longrightarrow> delimited rest \<Longrightarrow>
        length (enc (l + 1) (snd kv)) \<le> n \<Longrightarrow>
        parse_value fr n (enc (l + 1) (snd kv) @ rest) = Ok (snd kv, rest)"
    proof -
      fix kv n rest
      assume a: "kv \<in> set kvs" "delimited rest" "length (enc (l + 1) (snd kv)) \<le> n"
      have "snd kv \<in> Basic_BNFs.snds kv"
        by (cases kv) simp
      from JObj.IH [OF a(1) this wf [OF a(1)] a(2,3)]
      show "parse_value fr n (enc (l + 1) (snd kv) @ rest) = Ok (snd kv, rest)" .
    qed
    have st: "\<And>kv. kv \<in> set kvs \<Longrightarrow> \<exists>c cs. enc (l + 1) (snd kv) = c # cs \<and> value_start c"
      using wf enc_start by blast
    have pe: "parse_members fr (Suc m) (?items @ nl l @ RBRACE # rest) = Ok (kvs, rest)"
      using ih st False m(2) by (rule parse_members_enc)
    obtain kv0 kvs0 where kvs: "kvs = kv0 # kvs0"
      using False by (cases kvs) auto
    obtain t where hd: "?items @ nl l @ RBRACE # rest = DQUOTE # t"
      using kvs by (simp add: encode_string_def join_Cons_Cons)
    have sk: "skip_ws (nl (l + 1) @ ?items @ nl l @ RBRACE # rest) = DQUOTE # t"
      unfolding skip_ws_nl hd by (simp add: skip_ws_keep json_ws_def)
    have d: "dict_of_pairs kvs = kvs"
      using JObj.prems(1) by (simp add: dict_of_pairs_distinct)
    have "enc l (JObj kvs) @ rest = LBRACE # (nl (l + 1) @ ?items @ nl l @ RBRACE # rest)"
      using False by simp
    then have "parse_value fr n (enc l (JObj kvs) @ rest)
        = rbind (parse_members fr (Suc m) (DQUOTE # t))
            (\<lambda>(pairs, r). Ok (JObj (dict_of_pairs pairs), r))"
      using parse_value_object [OF sk, of fr "Suc m"] n m(1) by simp
    also have "\<dots> = Ok (JObj kvs, rest)"
      using pe d unfolding hd by (simp add: rbind_def del: parse_members.simps)
    finally show ?thesis .
  qed
qed


lemma loads_dumps:
  assumes "wf_json fr v"
  shows "json_loads fr (json_dumps v) = Inr v"
proof -
  obtain c cs where s: "enc 0 v = c # cs" "value_start c"
    using enc_start [OF assms, of 0] by auto
  have bom: "\<not> startswith (enc 0 v) [65279]"
    using s by (auto simp: startswith_def value_start_def isdigit_def)
  have sk: "skip_ws (enc 0 v) = enc 0 v"
    using s by (simp add: skip_ws_start)
  have "parse_value fr (Suc (length (enc 0 v))) (enc 0 v @ []) = Ok (v, [])"
    using assms by (intro parse_enc) (simp_all add: delimited_def)
  then show ?thesis
    using bom sk by (simp add: json_loads_def json_dumps_def skip_ws_def del: parse_value.simps)
qed

subsection \<open>What the decoder builds\<close>

lemma set_update_subset: "set (AList.update k v al) \<subseteq> insert (k, v) (set al)"
  by (induction al) auto

lemma dict_values:
  "set (foldl (\<lambda>d kv. AList.update (fst kv) (snd kv) d) acc kvs) \<subseteq> set acc \<union> set kvs"
proof (induction kvs arbitrary: acc)
  case Nil
  then show ?case by simp
next
  case (Cons kv kvs)
  show ?case
    using Cons [of "AList.update (fst kv) (snd kv) acc"] set_update_subset [of "fst kv" "snd kv" acc]
    by auto
qed

lemma dict_distinct:
  "distinct (map fst acc) \<Longrightarrow>
     distinct (map fst (foldl (\<lambda>d kv. AList.update (fst kv) (snd kv) d) acc kvs))"
  by (induction kvs arbitrary: acc) (simp_all add: distinct_update)

lemma wf_dict:
  assumes "\<forall>kv \<in> set pairs. wf_json fr (snd kv)"
  shows "wf_json fr (JObj (dict_of_pairs pairs))"
  using assms dict_values [of "[]" pairs] dict_distinct [of "[]" pairs]
  by (auto simp: dict_of_pairs_def)

lemma match_number_wf:
  assumes "float_repr_ok fr" and "match_number fr s = Some (v, r)"
  shows "wf_json fr v"
proof -
  from assms(2) obtain i r0 where i: "scan_integer s = Some (i, r0)"
    by (cases "scan_integer s") (auto simp: match_number_def)
  obtain f r1 where f: "scan_frac r0 = (f, r1)" by (cases "scan_frac r0")
  obtain x r2 where x: "scan_exp r1 = (x, r2)" by (cases "scan_exp r1")
  show ?thesis
    using assms i f x by (auto simp: match_number_def float_repr_ok_def split: if_splits)
qed

lemma canonical_consts:
  "canonical_float fr (py ''NaN'')" "canonical_float fr (py ''Infinity'')"
  "canonical_float fr (py ''-Infinity'')"
  by (simp_all add: canonical_float_def)

lemma parse_value_wf_step:
  assumes "float_repr_ok fr"
    and "\<And>s vs r. parse_elems fr n s = Ok (vs, r) \<Longrightarrow> \<forall>v \<in> set vs. wf_json fr v"
    and "\<And>s ps r. parse_members fr n s = Ok (ps, r) \<Longrightarrow> \<forall>kv \<in> set ps. wf_json fr (snd kv)"
    and "parse_value fr (Suc n) s = Ok (v, r)"
  shows "wf_json fr v"
proof (cases s)
  case Nil
  with assms(4) show ?thesis by simp
next
  case (Cons c cs)
  consider "c = DQUOTE" | "c = LBRACE" | "c = LBRACKET"
    | "c \<noteq> DQUOTE" "c \<noteq> LBRACE" "c \<noteq> LBRACKET"
    by blast
  then show ?thesis
  proof cases
    case 1
    with assms(4) Cons show ?thesis
      by (auto split: option.splits)
  next
    case 2
    have emp: "wf_json fr (JObj [])" by simp
    from 2 assms(4) Cons show ?thesis
      using assms(3) emp
      by (auto simp: rbind_def simp del: wf_json.simps intro!: wf_dict
          split: list.splits if_splits res.splits)
  next
    case 3
    with assms(4) Cons show ?thesis
      using assms(2)
      by (auto simp: rbind_def split: list.splits if_splits res.splits)
  next
    case 4
    with assms(4) Cons show ?thesis
      using match_number_wf [OF assms(1)] canonical_consts [of fr]
      by (auto split: if_splits option.splits)
  qed
qed

lemma parse_wf:
  assumes "float_repr_ok fr"
  shows "(\<forall>s v r. parse_value fr n s = Ok (v, r) \<longrightarrow> wf_json fr v)
    \<and> (\<forall>s vs r. parse_elems fr n s = Ok (vs, r) \<longrightarrow> (\<forall>v \<in> set vs. wf_json fr v))
    \<and> (\<forall>s ps r. parse_members fr n s = Ok (ps, r) \<longrightarrow> (\<forall>kv \<in> set ps. wf_json fr (snd kv)))"
proof (induction n)
  case 0
  show ?case by simp
next
  case (Suc n)
  have v: "\<And>s v r. parse_value fr n s = Ok (v, r) \<Longrightarrow> wf_json fr v"
    using Suc by blast
  have e: "\<And>s vs r. parse_elems fr n s = Ok (vs, r) \<Longrightarrow> \<forall>v \<in> set vs. wf_json fr v"
    using Suc by blast
  have m: "\<And>s ps r. parse_members fr n s = Ok (ps, r) \<Longrightarrow> \<forall>kv \<in> set ps. wf_json fr (snd kv)"
    using Suc by blast
  have 1: "\<And>s v r. parse_value fr (Suc n) s = Ok (v, r) \<Longrightarrow> wf_json fr v"
  proof -
    fix s v r
    assume pv: "parse_value fr (Suc n) s = Ok (v, r)"
    show "wf_json fr v"
    proof (rule parse_value_wf_step [OF assms _ _ pv])
      show "\<And>s vs r. parse_elems fr n s = Ok (vs, r) \<Longrightarrow> \<forall>v \<in> set vs. wf_json fr v"
        by (rule e)
      show "\<And>s ps r. parse_members fr n s = Ok (ps, r) \<Longrightarrow>
          \<forall>kv \<in> set ps. wf_json fr (snd kv)"
        by (rule m)
    qed
  qed
  have 2: "\<And>s vs r. parse_elems fr (Suc n) s = Ok (vs, r) \<Longrightarrow> \<forall>v \<in> set vs. wf_json fr v"
    using v e
    by (fastforce simp: rbind_def split: res.splits list.splits if_splits prod.splits)
  have 3: "\<And>s ps r. parse_members fr (Suc n) s = Ok (ps, r) \<Longrightarrow>
      \<forall>kv \<in> set ps. wf_json fr (snd kv)"
    using v m
    by (fastforce simp: rbind_def
        split: res.splits list.splits if_splits prod.splits option.splits)
  from 1 2 3 show ?case by blast
qed

lemma loads_wf:
  assumes "float_repr_ok fr" and "json_loads fr s = Inr v"
  shows "wf_json fr v"
proof -
  from assms(2) obtain r where "parse_value fr (Suc (length s)) (skip_ws s) = Ok (v, r)"
    by (auto simp: json_loads_def simp del: parse_value.simps split: if_splits res.splits)
  with parse_wf [OF assms(1), of "Suc (length s)"] show ?thesis
    by blast
qed

subsection \<open>What \<open>fix_json\<close> returns\<close>

lemma wf_string_list:
  assumes "is_string_list v"
  shows "wf_json fr v"
proof -
  have str: "wf_json fr x" if "case x of JStr s \<Rightarrow> True | _ \<Rightarrow> False" for x
    using that by (cases x) auto
  from assms show ?thesis
    by (cases v) (auto simp: is_string_list_def list_all_iff intro: str)
qed

lemma wf_plan: "is_plan v \<Longrightarrow> wf_json fr v"
  by (cases v) (auto simp: is_plan_def list_all_iff wf_string_list)

lemma wf_fallback: "wf_json fr (fallback steps)"
  by (simp add: fallback_def py_def)

lemma is_plan_fallback: "is_plan (fallback steps)"
  by (simp add: is_plan_def fallback_def is_string_list_def list_all_iff py_def)

lemma zero_repr_ok: "float_repr_ok zero_repr"
  by (simp add: float_repr_ok_def canonical_float_def zero_repr_def py_def match_number_def
      scan_integer_def scan_frac_def scan_exp_def startswith_def isdigit_def)

lemma parse_and_dump_Some:
  assumes "parse_and_dump fr x = Some out"
  shows "\<exists>v. json_loads fr x = Inr v \<and> out = json_dumps v"
  using assms by (cases "json_loads fr x") (auto simp: parse_and_dump_def try_except_def)

lemma fix_json_Some:
  assumes "fix_json fr json_str = Inr (Some out)"
  shows "(\<exists>x v. json_loads fr x = Inr v \<and> out = json_dumps v)
    \<or> (\<exists>steps. out = json_dumps (fallback steps))"
proof -
  let ?s = "strip_fences json_str"
  consider "parse_and_dump fr ?s = Some out" | "brace_strategies fr ?s = Some out"
    | "line_salvage ?s = Some out" | "outer_brace_strategy fr ?s = Some out"
    | "steps_only_strategy fr ?s = Some out"
    using assms by (auto simp: fix_json_unfold first_of_def split: option.splits)
  then show ?thesis
  proof cases
    case 1
    then show ?thesis using parse_and_dump_Some by blast
  next
    case 2
    then have "\<exists>x. parse_and_dump fr x = Some out"
      by (auto simp: brace_strategies_def split: option.splits)
    then show ?thesis using parse_and_dump_Some by blast
  next
    case 3
    then show ?thesis
      by (auto simp: line_salvage_def Let_def split: if_splits)
  next
    case 4
    then have "\<exists>x. parse_and_dump fr x = Some out"
      by (auto simp: outer_brace_strategy_def split: option.splits)
    then show ?thesis using parse_and_dump_Some by blast
  next
    case 5
    then have "\<exists>x. parse_and_dump fr x = Some out"
      by (auto simp: steps_only_strategy_def split: if_splits)
    then show ?thesis using parse_and_dump_Some by blast
  qed
qed

subsection \<open>Texts in braces\<close>

lemma rstrip_keep: "\<not> isspace c \<Longrightarrow> rstrip (t @ [c]) = t @ [c]"
  by (simp add: rstrip_def)

lemma endswith_last:
  assumes "endswith (t @ [c]) p" and "p \<noteq> []"
  shows "last p = c"
proof -
  have "drop (length (t @ [c]) - length p) (t @ [c]) = p"
    using assms(1) by (simp add: endswith_def)
  then have "last (drop (length (t @ [c]) - length p) (t @ [c])) = last p"
    by simp
  moreover have "length (t @ [c]) - length p < length (t @ [c])"
    using assms(2) by (cases p) auto
  ultimately show ?thesis
    by (metis last_drop last_snoc)
qed

lemma strip_fences_braced:
  "strip_fences (LBRACE # mid @ [RBRACE]) = LBRACE # mid @ [RBRACE]"
proof -
  let ?s = "LBRACE # mid @ [RBRACE]"
  have sp: "\<not> isspace RBRACE" "\<not> isspace LBRACE"
    by (simp_all add: isspace_def)
  have r: "rstrip ?s = ?s"
    using rstrip_keep [OF sp(1), of "LBRACE # mid"] by simp
  have st: "strip ?s = ?s"
    using sp(2) by (simp add: strip_def r lstrip_def)
  have lf: "sub_leading_fence ?s = ?s"
    by (simp add: sub_leading_fence_def startswith_def)
  have e1: "\<not> endswith ?s FENCE"
    using endswith_last [of "LBRACE # mid" RBRACE FENCE] by auto
  have e2: "\<not> endswith ?s (FENCE @ [NEWLINE])"
    using endswith_last [of "LBRACE # mid" RBRACE "FENCE @ [NEWLINE]"] by auto
  have tf: "sub_trailing_ws_fence ?s = ?s"
    using e1 e2 by (simp add: sub_trailing_ws_fence_def)
  show ?thesis
    by (simp add: strip_fences_def Let_def st lf tf)
qed

lemma dumps_object_braced: "\<exists>mid. json_dumps (JObj kvs) = LBRACE # mid @ [RBRACE]"
  by (cases "kvs = []") (auto simp: json_dumps_def py_def)

subsection \<open>The brace scan and the fence stripping on an object followed by prose\<close>





















section \<open>The claims\<close>

text \<open>
  C1, as the specification states it, fails. On the truncated text
  \<^verbatim>\<open>{"steps": ["Warm up", "Main set\<close> the heuristic repair closes the open quote and
  pads the one missing brace, which gives \<^verbatim>\<open>{"steps": ["Warm up", "Main set"}\<close>.
  The bracket is still open, \<open>json.loads\<close> refuses the repaired text, and neither
  brace strategy returns anything.
\<close>

theorem C1_repair_does_not_parse:
  "repair_candidate (strip_fences truncated_plan) 0 = repaired_plan
   \<and> json_loads id repaired_plan = Inl JSONDecodeError
   \<and> brace_strategies id (strip_fences truncated_plan) = None"
  by (simp add: truncated_strip truncated_repair repaired_loads truncated_braces)

text \<open>
  C1, amended: on that text \<open>fix_json\<close> still returns the serialisation of an object
  with a \<open>steps\<close> key, but it comes from the line-salvage fallback: the value of
  \<open>steps\<close> is the one line \<^verbatim>\<open>steps": ["Warm up", "Main set\<close>, and \<open>assumptions\<close> and
  \<open>success_criteria\<close> are empty. \<open>json.loads\<close> reads that object back from the text
  returned.
\<close>

theorem C1_truncated_plan_is_line_salvaged:
  "fix_json fr truncated_plan = Inr (Some (json_dumps (fallback [salvaged_fragment])))
   \<and> json_loads fr (json_dumps (fallback [salvaged_fragment]))
       = Inr (fallback [salvaged_fragment])"
  by (simp add: fix_json_unfold truncated_strip first_of_def truncated_braces
      parse_and_dump_simps(1) [OF truncated_loads] line_salvage_def truncated_salvage
      loads_dumps wf_fallback)

text \<open>
  C5, as the specification states it, fails: the line-salvage fallback is the fourth
  strategy, and a text without any brace can be valid JSON. The one-line text
  \<^verbatim>\<open>"Do 10 pushups now"\<close> has no brace, and its stripped line has 17 characters; the
  direct parse takes it as a JSON string, and \<open>fix_json\<close> returns that string and no
  object with \<open>steps\<close>.
\<close>

theorem C5_valid_json_is_not_salvaged:
  "\<not> contains quoted_line [LBRACE]
   \<and> stripped_lines quoted_line = [py ''Do 10 pushups now'']
   \<and> length (py ''Do 10 pushups now'') > 10
   \<and> fix_json id quoted_line = Inr (Some quoted_line)
   \<and> json_loads id quoted_line = Inr (JStr (py ''Do 10 pushups now''))"
proof -
  have "\<not> contains quoted_line [LBRACE]"
    by (simp add: quoted_line_def py_def startswith_def)
  moreover have "stripped_lines quoted_line = [py ''Do 10 pushups now'']"
    by (simp add: quoted_line_def stripped_lines_def str_eval)
  moreover have "json_dumps (JStr (py ''Do 10 pushups now'')) = quoted_line"
    by (simp add: quoted_line_def dumps_eval py_def)
  ultimately show ?thesis
    by (simp add: fix_json_unfold quoted_line_strip first_of_def quoted_line_loads
       parse_and_dump_simps(2) [OF quoted_line_loads] py_def)
qed

text \<open>
  C5, amended: for a text without any brace that \<open>json.loads\<close> refuses once the fences
  and the surrounding whitespace are stripped, and whose stripped text has at least one
  line that is not blank, every such line (trimmed, and freed of the quotes and commas
  around it) being longer than 10 characters, \<open>fix_json\<close> returns the serialisation of
  the object with exactly those lines, in order, as \<open>steps\<close> and with empty
  \<open>assumptions\<close> and \<open>success_criteria\<close>, which \<open>json.loads\<close> reads back from it.
\<close>

theorem C5_line_salvage:
  assumes "\<not> contains json_str [LBRACE]"
    and "json_loads fr (strip_fences json_str) = Inl e"
    and "stripped_lines (salvage_inner (strip_fences json_str)) = lines"
    and "lines \<noteq> []"
    and "\<forall>ln \<in> set lines. 10 < length ln"
  shows "fix_json fr json_str = Inr (Some (json_dumps (fallback lines)))
    \<and> json_loads fr (json_dumps (fallback lines)) = Inr (fallback lines)"
proof -
  let ?s = "strip_fences json_str"
  have "LBRACE \<notin> set ?s"
    using assms(1) set_strip_fences [of json_str] by (auto simp: contains_char)
  then have "brace_strategies fr ?s = None"
    by (simp add: brace_strategies_def find_char_None [THEN iffD2])
  moreover have "parse_and_dump fr ?s = None"
    using assms(2) by (rule parse_and_dump_simps(1))
  moreover have "salvage_steps ?s = lines"
    using assms(3,5) by (simp add: salvage_steps_def)
  ultimately show ?thesis
    using assms(4)
    by (simp add: fix_json_unfold first_of_def line_salvage_def loads_dumps wf_fallback)
qed

theorem C5_line_salvage_witness:
  "\<not> contains three_lines [LBRACE]
   \<and> json_loads id (strip_fences three_lines) = Inl JSONDecodeError
   \<and> stripped_lines (salvage_inner (strip_fences three_lines))
       = [py ''Do 10 pushups'', py ''Rest 30 seconds'', py ''Repeat 3 times'']
   \<and> fix_json id three_lines
       = Inr (Some (json_dumps (fallback
           [py ''Do 10 pushups'', py ''Rest 30 seconds'', py ''Repeat 3 times''])))"
proof -
  have nb: "\<not> contains three_lines [LBRACE]"
    by (simp add: contains_char three_lines_def py_def)
  have big: "\<forall>ln \<in> set [py ''Do 10 pushups'', py ''Rest 30 seconds'', py ''Repeat 3 times''].
      10 < length ln"
    by (simp add: py_def)
  show ?thesis
    using C5_line_salvage [OF nb three_lines_loads three_lines_lines _ big, of id] nb
      three_lines_loads three_lines_lines by simp
qed

text \<open>
  C7: \<open>fix_json\<close> and \<open>_extract_text_from_response\<close> return for every input and raise
  nothing: each is one \<open>try\<close> whose handler returns \<open>None\<close>, and every loop in them
  runs over the text or over a list. Where an attribute of the response raises while the
  parts are collected, the extractor returns \<open>None\<close>.
\<close>

theorem C7_never_raises:
  "(\<exists>r. fix_json fr json_str = Inr r)
   \<and> (\<exists>r. extract_text_from_response response = Inr r)
   \<and> (direct_text response = None \<and> collect_parts response = Inl e
        \<longrightarrow> extract_text_from_response response = Inr None)"
  using fix_json_returns [of fr json_str] extract_returns [of response]
  by (simp add: extract_text_from_response_def try_except_def bind_exn_def)

theorem C7_never_raises_witness:
  "direct_text empty_response = None \<and> collect_parts empty_response = Inl (OtherError 0)
   \<and> extract_text_from_response empty_response = Inr None
   \<and> (\<exists>r. fix_json id truncated_plan = Inr r)"
  using C7_never_raises [of id truncated_plan empty_response "OtherError 0"] empty_response_raises
  by simp

text \<open>
  C6: a response that exposes no text anywhere makes the extractor return \<open>None\<close>; the
  extractor returns the empty string for no response at all; and with no mock text the
  planning stage, given such a response, fails with \<open>EmptyModelOutput\<close> without a call
  of \<open>json.loads\<close> or \<open>fix_json\<close>.
\<close>

theorem C6_no_text_fails_before_parsing:
  assumes "no_text_anywhere response"
    and "\<not> truthy (mock_response_text self)"
    and "generate_content en (length (filter is_generate (events st)))
           (planning_prompt en user_request) = Inr response"
  shows "extract_text_from_response response = Inr None
    \<and> extract_text_from_response any_response \<noteq> Inr (Some [])
    \<and> fst (chain1_planning en self user_request st) = Inl EmptyModelOutput
    \<and> filter is_parse (events (snd (chain1_planning en self user_request st)))
        = filter is_parse (events st)"
proof -
  have x: "extract_text_from_response response = Inr None"
    using assms(1) by (rule extract_no_text)
  have "chain1_planning en self user_request st
      = (Inl EmptyModelOutput,
         write_dump en None (log_event (Generate (planning_prompt en user_request)) st))"
    by (simp add: chain1_planning_def stage_output_model [OF assms(2,3)] x)
  then show ?thesis
    using x extract_never_empty [of any_response] by (simp add: is_parse_def)
qed

theorem C6_no_text_fails_before_parsing_witness:
  "no_text_anywhere empty_response
   \<and> extract_text_from_response empty_response = Inr None
   \<and> fst (chain1_planning (answering_env empty_response) no_mock (py ''run'') fresh)
       = Inl EmptyModelOutput
   \<and> filter is_parse
       (events (snd (chain1_planning (answering_env empty_response) no_mock (py ''run'') fresh)))
       = []"
  using C6_no_text_fails_before_parsing [of empty_response no_mock "answering_env empty_response" fresh "py ''run''"]
    empty_response_no_text
  by (simp add: env_eval)








text \<open>
  C2: for every object with the shape of a plan, \<open>fix_json\<close> applied to its
  serialisation succeeds by the first strategy (stripping the fences changes nothing and
  the direct parse succeeds), returns that serialisation again, and parsing it yields
  exactly the object.
\<close>

theorem C2_plan_round_trip:
  assumes "is_plan plan"
  shows "parse_and_dump fr (strip_fences (json_dumps plan)) = Some (json_dumps plan)
    \<and> fix_json fr (json_dumps plan) = Inr (Some (json_dumps plan))
    \<and> json_loads fr (json_dumps plan) = Inr plan"
proof -
  from assms obtain kvs where p: "plan = JObj kvs"
    by (cases plan) (auto simp: is_plan_def)
  obtain mid where "json_dumps plan = LBRACE # mid @ [RBRACE]"
    using dumps_object_braced [of kvs] p by auto
  then have s: "strip_fences (json_dumps plan) = json_dumps plan"
    using strip_fences_braced [of mid] by simp
  have l: "json_loads fr (json_dumps plan) = Inr plan"
    using assms by (intro loads_dumps wf_plan)
  show ?thesis
    by (simp add: fix_json_unfold s l first_of_def parse_and_dump_simps(2) [OF l])
qed

theorem C2_plan_round_trip_witness:
  "is_plan (fallback [py ''Warm up'', py ''Main set''])
   \<and> fix_json id (json_dumps (fallback [py ''Warm up'', py ''Main set'']))
       = Inr (Some (json_dumps (fallback [py ''Warm up'', py ''Main set''])))
   \<and> json_loads id (json_dumps (fallback [py ''Warm up'', py ''Main set'']))
       = Inr (fallback [py ''Warm up'', py ''Main set''])"
  using C2_plan_round_trip [OF is_plan_fallback, of id "[py ''Warm up'', py ''Main set'']"] is_plan_fallback
  by simp

text \<open>
  C9: whenever \<open>fix_json\<close> returns a text, that text is the serialisation by
  \<open>json.dumps\<close> of a value, and \<open>json.loads\<close> reads that very value back from it; this
  holds for each of the strategies, the line-salvage fallback included. Floats are
  printed by a sound \<open>fr\<close>.
\<close>

theorem C9_output_is_valid_json:
  assumes "float_repr_ok fr" and "fix_json fr json_str = Inr (Some out)"
  shows "\<exists>v. out = json_dumps v \<and> json_loads fr out = Inr v"
proof -
  from fix_json_Some [OF assms(2)] obtain v where "wf_json fr v" "out = json_dumps v"
    using loads_wf [OF assms(1)] wf_fallback [of fr] by blast
  then show ?thesis
    using loads_dumps [of fr v] by blast
qed

theorem C9_output_is_valid_json_witness:
  "float_repr_ok zero_repr
   \<and> fix_json zero_repr truncated_plan = Inr (Some (json_dumps (fallback [salvaged_fragment])))
   \<and> (\<exists>v. json_loads zero_repr (json_dumps (fallback [salvaged_fragment])) = Inr v)"
  using C9_output_is_valid_json [OF zero_repr_ok, of truncated_plan "json_dumps (fallback [salvaged_fragment])"]
    zero_repr_ok
  by (auto simp: fix_json_unfold truncated_strip first_of_def truncated_braces
      parse_and_dump_simps(1) [OF truncated_loads] line_salvage_def truncated_salvage)




end
